theory Spec2Isabelle
  imports Main "HOL-Library.Word" "HOL-Library.Multiset" "HOL-Library.Signed_Division"
begin

unbundle bit_operations_syntax

section \<open>Machine types\<close>

text \<open>
  The headers are plain C over fixed-width integers: \<open>uint8_t\<close>, \<open>uint32_t\<close> and
  \<open>uint64_t\<close> are words whose arithmetic wraps around. \<open>size_t\<close> values (byte counts
  and loop indices) are natural numbers: every claim is about lengths far below
  \<open>2 ^ 64\<close>, where \<open>size_t\<close> arithmetic does not wrap.
\<close>

type_synonym u8 = "8 word"
type_synonym u32 = "32 word"
type_synonym u64 = "64 word"

section \<open>riscv\_crypto.h: scalar bit operations\<close>

subsection \<open>\<open>riscv_add_uw\<close>\<close>

text \<open>
  The RISC-V build without Zba (line 159):
  \<^verbatim>\<open>return ((a & 0xFFFFFFFF) + (b & 0xFFFFFFFF)) & 0xFFFFFFFF;\<close>
\<close>

definition riscv_add_uw :: "u64 \<Rightarrow> u64 \<Rightarrow> u64" where
  "riscv_add_uw a b = ((a AND 0xFFFFFFFF) + (b AND 0xFFFFFFFF)) AND 0xFFFFFFFF"

text \<open>
  The build without \<open>XMRIG_RISCV\<close> (line 178):
  \<^verbatim>\<open>return (a & 0xFFFFFFFF) + (b & 0xFFFFFFFF);\<close>
\<close>

definition riscv_add_uw_fallback :: "u64 \<Rightarrow> u64 \<Rightarrow> u64" where
  "riscv_add_uw_fallback a b = (a AND 0xFFFFFFFF) + (b AND 0xFFFFFFFF)"

subsection \<open>\<open>riscv_rotr32\<close>\<close>

text \<open>
  The shifts of a \<open>uint32_t\<close> by an \<open>int\<close> count, as the compiled code performs them:
  the 32-bit shift instructions of the targets (RISC-V \<open>sllw\<close> and \<open>srlw\<close>, x86 \<open>shl\<close>
  and \<open>shr\<close>) read the count modulo 32. For \<open>0 \<le> n < 32\<close>, the counts for which ISO C
  defines the shift, this is the shift by \<open>n\<close>.
\<close>

definition c_shr32 :: "u32 \<Rightarrow> int \<Rightarrow> u32" where
  "c_shr32 x n = drop_bit (nat (n mod 32)) x"

definition c_shl32 :: "u32 \<Rightarrow> int \<Rightarrow> u32" where
  "c_shl32 x n = push_bit (nat (n mod 32)) x"

text \<open>
  The scalar branch (line 106, and the same expression on line 174):
  \<^verbatim>\<open>return (x >> r) | (x << (32 - r));\<close>
\<close>

definition riscv_rotr32 :: "u32 \<Rightarrow> int \<Rightarrow> u32" where
  "riscv_rotr32 x r = c_shr32 x r OR c_shl32 x (32 - r)"

subsection \<open>\<open>riscv_aes_enc_round\<close>\<close>

text \<open>
  \<open>riscv_aes_sbox_t\<close> holds the two 256-entry tables. The object \<open>riscv_aes_tables\<close>
  is declared \<open>extern\<close> and its contents are not part of the headers, so the round
  takes the tables as an argument. The round key is passed by pointer and read once;
  the model takes the value read (lines 78-94).
\<close>

record riscv_aes_sbox_t =
  sbox_enc :: "u32 list"
  sbox_dec :: "u32 list"

definition riscv_aes_enc_round :: "riscv_aes_sbox_t \<Rightarrow> u32 \<Rightarrow> u32 \<Rightarrow> u32" where
  "riscv_aes_enc_round riscv_aes_tables input round_key =
     (let b0 = drop_bit 0 input AND 0xFF;
          b1 = drop_bit 8 input AND 0xFF;
          b2 = drop_bit 16 input AND 0xFF;
          b3 = drop_bit 24 input AND 0xFF;
          result = ((sbox_enc riscv_aes_tables ! unat b0 XOR
                     sbox_enc riscv_aes_tables ! unat b1) XOR
                     sbox_enc riscv_aes_tables ! unat b2) XOR
                     sbox_enc riscv_aes_tables ! unat b3
      in result XOR round_key)"

text \<open>
  The specification's reading of the input: byte \<open>k\<close> of a 32-bit value, counted from
  the least significant one, as a table index.
\<close>

definition input_byte :: "u32 \<Rightarrow> nat \<Rightarrow> nat" where
  "input_byte x k = (unat x div 256 ^ k) mod 256"

definition input_bytes :: "u32 \<Rightarrow> nat list" where
  "input_bytes x = map (input_byte x) [0, 1, 2, 3]"

section \<open>RxDataset\_riscv.h: scheduling advice\<close>

subsection \<open>\<open>riscv_optimal_init_threads\<close>\<close>

text \<open>
  The RISC-V build (lines 54-60), on \<open>uint32_t\<close>:
  \<^verbatim>\<open>uint32_t recommended = (available_threads * 3) / 4;
  return recommended > 0 ? recommended : 1;\<close>
\<close>

definition riscv_optimal_init_threads :: "u32 \<Rightarrow> u32" where
  "riscv_optimal_init_threads available_threads =
     (let recommended = (available_threads * 3) div 4
      in if recommended > 0 then recommended else 1)"

text \<open>The build without \<open>XMRIG_RISCV\<close> (line 113): \<^verbatim>\<open>return available;\<close>\<close>

definition riscv_optimal_init_threads_fallback :: "u32 \<Rightarrow> u32" where
  "riscv_optimal_init_threads_fallback available = available"

subsection \<open>\<open>get_optimal_cpu_core\<close>\<close>

text \<open>
  C's \<open>%\<close> truncates towards zero: the remainder takes the sign of the dividend. On
  \<open>int\<close> this is \<open>smod\<close>.

  The RISC-V build (lines 96-101). \<open>sysconf\<close> is the operating system's answer, a
  \<open>long\<close> (64 bits on the 64-bit targets of these headers), and is an argument here;
  \<open>thread_id\<close> is a 32-bit \<open>int\<close>, converted to \<open>long\<close> for the remainder, and the
  remainder is converted back to \<open>int\<close> on return:
  \<^verbatim>\<open>long nprocs = sysconf(_SC_NPROCESSORS_ONLN);
  if (nprocs <= 0) nprocs = 1;
  return thread_id % nprocs;\<close>
\<close>

definition get_optimal_cpu_core :: "u64 \<Rightarrow> u32 \<Rightarrow> u32" where
  "get_optimal_cpu_core sysconf_nprocs thread_id =
     (let nprocs = (if sint sysconf_nprocs \<le> 0 then 1 else sysconf_nprocs);
          r = (word_of_int (sint thread_id smod sint nprocs) :: u64)
      in word_of_int (sint r))"

text \<open>The build without \<open>XMRIG_RISCV\<close> (line 116): \<^verbatim>\<open>return thread_id;\<close>\<close>

definition get_optimal_cpu_core_fallback :: "u64 \<Rightarrow> u32 \<Rightarrow> u32" where
  "get_optimal_cpu_core_fallback sysconf_nprocs thread_id = thread_id"

section \<open>Buffers and memory accesses\<close>

text \<open>
  A buffer is the list of the bytes of the object a pointer points into, from the
  pointer onwards. C leaves an access outside the object undefined; here such an access
  is the value \<open>Inl OutOfBounds\<close>, and every operation that touches memory returns
  \<open>fault + result\<close>. The targets of these headers are little-endian: a 32- or 64-bit
  value occupies its bytes from the least significant one upwards.
\<close>

type_synonym buffer = "u8 list"

datatype fault = OutOfBounds

definition then_do :: "fault + 'a \<Rightarrow> ('a \<Rightarrow> fault + 'b) \<Rightarrow> fault + 'b" where
  "then_do r k = (case r of Inl e \<Rightarrow> Inl e | Inr x \<Rightarrow> k x)"

definition le_bytes :: "nat \<Rightarrow> 'a::len word \<Rightarrow> u8 list" where
  "le_bytes n w = map (\<lambda>k. ucast (drop_bit (8 * k) w)) [0..<n]"

definition le_word :: "u8 list \<Rightarrow> 'a::len word" where
  "le_word bs = word_rcat (rev bs)"

definition load8 :: "buffer \<Rightarrow> nat \<Rightarrow> fault + u8" where
  "load8 buf i = (if i < length buf then Inr (buf ! i) else Inl OutOfBounds)"

text \<open>\<open>p[i]\<close> for a \<open>uint64_t *p\<close>: the eight bytes from offset \<open>8 * i\<close>.\<close>

definition load64 :: "buffer \<Rightarrow> nat \<Rightarrow> fault + u64" where
  "load64 buf i =
     (if 8 * i + 8 \<le> length buf then Inr (le_word (take 8 (drop (8 * i) buf)))
      else Inl OutOfBounds)"

definition store64 :: "buffer \<Rightarrow> nat \<Rightarrow> u64 \<Rightarrow> fault + buffer" where
  "store64 buf i w =
     (if 8 * i + 8 \<le> length buf
      then Inr (take (8 * i) buf @ le_bytes 8 w @ drop (8 * i + 8) buf)
      else Inl OutOfBounds)"

subsection \<open>The C library\<close>

text \<open>
  \<open>memset(p + off, c, n)\<close> stores the byte \<open>(unsigned char) c\<close> into \<open>n\<close> bytes;
  \<open>memcpy(dst, src, n)\<close> copies \<open>n\<close> bytes.
\<close>

definition libc_memset :: "buffer \<Rightarrow> nat \<Rightarrow> u32 \<Rightarrow> nat \<Rightarrow> fault + buffer" where
  "libc_memset buf off c n =
     (if off + n \<le> length buf
      then Inr (take off buf @ replicate n (ucast c) @ drop (off + n) buf)
      else Inl OutOfBounds)"

definition libc_memcpy :: "buffer \<Rightarrow> buffer \<Rightarrow> nat \<Rightarrow> fault + buffer" where
  "libc_memcpy dst src n =
     (if n \<le> length dst \<and> n \<le> length src then Inr (take n src @ drop n dst)
      else Inl OutOfBounds)"

text \<open>
  \<open>byte_diff\<close> is the difference \<open>ba[j] - bb[j]\<close> of two \<open>uint8_t\<close> values after
  their promotion to \<open>int\<close>.

  \<open>first_diff_from a b n j\<close> scans the indices \<open>j, j + 1, ..., n - 1\<close> upwards and
  returns the difference at the first one where the buffers differ, and 0 when there is
  none.
\<close>

definition byte_diff :: "u8 \<Rightarrow> u8 \<Rightarrow> int" where
  "byte_diff x y = int (unat x) - int (unat y)"

function first_diff_from :: "buffer \<Rightarrow> buffer \<Rightarrow> nat \<Rightarrow> nat \<Rightarrow> int" where
  "first_diff_from a b n j =
     (if j < n then
        (if a ! j \<noteq> b ! j then byte_diff (a ! j) (b ! j)
         else first_diff_from a b n (j + 1))
      else 0)"
  by pat_completeness auto
termination
  by (relation "measure (\<lambda>(a, b, n, j). n - j)") auto

declare first_diff_from.simps [simp del]

text \<open>
  \<open>memcmp(a, b, n)\<close> compares the bytes as \<open>unsigned char\<close> from the lowest address.
  ISO C fixes only the sign of its result, the sign of the difference of the first pair
  of bytes that differ. The library is not part of the repository: the routines that
  call \<open>memcmp\<close> take it as an argument, and \<open>memcmp_conforms\<close> is what ISO C says
  about it on buffers of at least \<open>n\<close> bytes. \<open>memcmp_first_diff\<close> is one such
  \<open>memcmp\<close>, which returns that difference itself.
\<close>

type_synonym memcmp_fn = "buffer \<Rightarrow> buffer \<Rightarrow> nat \<Rightarrow> fault + int"

definition memcmp_conforms :: "memcmp_fn \<Rightarrow> bool" where
  "memcmp_conforms memcmp \<longleftrightarrow>
     (\<forall>a b n. n \<le> length a \<and> n \<le> length b \<longrightarrow>
        (\<exists>r. memcmp a b n = Inr r \<and> sgn r = sgn (first_diff_from a b n 0)))"

definition memcmp_first_diff :: memcmp_fn where
  "memcmp_first_diff a b n =
     (if n \<le> length a \<and> n \<le> length b then Inr (first_diff_from a b n 0)
      else Inl OutOfBounds)"

subsection \<open>The vector intrinsics\<close>

text \<open>
  \<open>__riscv_vsetvl_e32m1\<close> and \<open>__riscv_vsetvl_e64m1\<close> return the number of elements
  the next vector operations process, given the number requested. The intrinsics are the
  compiler's and the answer is the processor's: every vector routine takes the function
  \<open>vsetvl\<close> that answers as an argument. The vector specification leaves the processor
  some freedom; \<open>vsetvl_conforms\<close> is the part of it the routines rely on: a request
  that is not zero gets an answer that is not zero and not larger than the request.
  \<open>vsetvl_vlmax vlmax\<close> is the usual answer, the request cut down to the hardware's
  limit \<open>vlmax\<close>. A vector register is the list of its active elements.
\<close>

definition vsetvl_conforms :: "(nat \<Rightarrow> nat) \<Rightarrow> bool" where
  "vsetvl_conforms vsetvl \<longleftrightarrow> (\<forall>avl. 0 < avl \<longrightarrow> 0 < vsetvl avl \<and> vsetvl avl \<le> avl)"

definition vsetvl_vlmax :: "nat \<Rightarrow> nat \<Rightarrow> nat" where
  "vsetvl_vlmax vlmax avl = min avl vlmax"

definition vmv_v_x :: "'a \<Rightarrow> nat \<Rightarrow> 'a list" where
  "vmv_v_x x vl = replicate vl x"

text \<open>\<open>__riscv_vse32_v_u32m1(d32 + i, v, vl)\<close>: store the elements from offset \<open>4 * i\<close>.\<close>

definition vse32_v :: "buffer \<Rightarrow> nat \<Rightarrow> u32 list \<Rightarrow> fault + buffer" where
  "vse32_v buf i v =
     (if 4 * (i + length v) \<le> length buf
      then Inr (take (4 * i) buf @ concat (map (le_bytes 4) v) @ drop (4 * (i + length v)) buf)
      else Inl OutOfBounds)"

text \<open>\<open>__riscv_vle64_v_u64m1(a64 + i, vl)\<close>: load \<open>vl\<close> elements from offset \<open>8 * i\<close>.\<close>

definition vle64_v :: "buffer \<Rightarrow> nat \<Rightarrow> nat \<Rightarrow> fault + u64 list" where
  "vle64_v buf i vl =
     (if 8 * (i + vl) \<le> length buf
      then Inr (map (\<lambda>k. le_word (take 8 (drop (8 * (i + k)) buf))) [0..<vl])
      else Inl OutOfBounds)"

definition vmsne_vv :: "u64 list \<Rightarrow> u64 list \<Rightarrow> bool list" where
  "vmsne_vv va vb = map (\<lambda>(x, y). x \<noteq> y) (zip va vb)"

definition vcpop_m :: "bool list \<Rightarrow> nat" where
  "vcpop_m m = length (filter (\<lambda>b. b) m)"

section \<open>riscv\_rvv.h: \<open>riscv_memset_rvv\<close>\<close>

text \<open>
  The build with the vector extension (lines 98-117). The loop's state is the index
  \<open>i\<close> and the destination; a loop that never ends has the value \<open>None\<close>.
  (\<open>cnt\<close> is the source's \<open>count\<close>, and \<open>sz\<close> its \<open>size\<close>.)
  \<^verbatim>\<open>while (i < count) {
      vl = __riscv_vsetvl_e32m1(count - i);
      vuint32m1_t vp = __riscv_vmv_v_x_u32m1(pattern, vl);
      __riscv_vse32_v_u32m1(d32 + i, vp, vl);
      i += vl;
  }\<close>
\<close>

partial_function (option) riscv_memset_rvv_loop ::
  "(nat \<Rightarrow> nat) \<Rightarrow> u32 \<Rightarrow> nat \<Rightarrow> nat \<Rightarrow> buffer \<Rightarrow> (fault + buffer) option" where
  "riscv_memset_rvv_loop vsetvl pattern cnt i dst =
     (if i < cnt then
        (let vl = vsetvl (cnt - i);
             vp = vmv_v_x pattern vl
         in case vse32_v dst i vp of
              Inl e \<Rightarrow> Some (Inl e)
            | Inr dst' \<Rightarrow> riscv_memset_rvv_loop vsetvl pattern cnt (i + vl) dst')
      else Some (Inr dst))"

text \<open>
  \<^verbatim>\<open>size_t count = size / 4;
  ... the loop ...
  size_t remainder = size % 4;
  if (remainder) {
      memset((uint8_t *)dst + size - remainder, pattern & 0xFF, remainder);
  }\<close>
\<close>

definition riscv_memset_rvv ::
  "(nat \<Rightarrow> nat) \<Rightarrow> buffer \<Rightarrow> u32 \<Rightarrow> nat \<Rightarrow> (fault + buffer) option" where
  "riscv_memset_rvv vsetvl dst pattern sz =
     (let cnt = sz div 4 in
      case riscv_memset_rvv_loop vsetvl pattern cnt 0 dst of
        None \<Rightarrow> None
      | Some (Inl e) \<Rightarrow> Some (Inl e)
      | Some (Inr dst') \<Rightarrow>
          (let remainder = sz mod 4 in
           if remainder \<noteq> 0
           then Some (libc_memset dst' (sz - remainder) (pattern AND 0xFF) remainder)
           else Some (Inr dst')))"

text \<open>
  The build without the vector extension (lines 226-228):
  \<^verbatim>\<open>memset(dst, pattern & 0xFF, size);\<close>
\<close>

definition riscv_memset_rvv_scalar :: "buffer \<Rightarrow> u32 \<Rightarrow> nat \<Rightarrow> fault + buffer" where
  "riscv_memset_rvv_scalar dst pattern sz = libc_memset dst 0 (pattern AND 0xFF) sz"

section \<open>RxDataset\_riscv.h: \<open>aligned_memcpy_opt\<close>\<close>

text \<open>
  The RISC-V build (lines 73-93). \<open>prefetch_dataset_item\<close> only issues prefetch
  hints, which change no memory, and is left out. One pass of the loop body is the eight
  assignments \<open>d[i] = s[i]; ...; d[i+7] = s[i+7];\<close> in order.
  \<^verbatim>\<open>size_t chunks = size / 8;
  for (size_t i = 0; i < chunks; i += 8) { ... }\<close>
\<close>

definition copy_qword :: "buffer \<Rightarrow> nat \<Rightarrow> buffer \<Rightarrow> fault + buffer" where
  "copy_qword s k d = then_do (load64 s k) (store64 d k)"

definition aligned_memcpy_body :: "buffer \<Rightarrow> nat \<Rightarrow> buffer \<Rightarrow> fault + buffer" where
  "aligned_memcpy_body s i d =
     then_do (copy_qword s i d) (\<lambda>d.
     then_do (copy_qword s (i + 1) d) (\<lambda>d.
     then_do (copy_qword s (i + 2) d) (\<lambda>d.
     then_do (copy_qword s (i + 3) d) (\<lambda>d.
     then_do (copy_qword s (i + 4) d) (\<lambda>d.
     then_do (copy_qword s (i + 5) d) (\<lambda>d.
     then_do (copy_qword s (i + 6) d) (\<lambda>d.
     copy_qword s (i + 7) d)))))))"

function aligned_memcpy_loop :: "buffer \<Rightarrow> nat \<Rightarrow> nat \<Rightarrow> buffer \<Rightarrow> fault + buffer" where
  "aligned_memcpy_loop s chunks i d =
     (if i < chunks then
        (case aligned_memcpy_body s i d of
           Inl e \<Rightarrow> Inl e
         | Inr d' \<Rightarrow> aligned_memcpy_loop s chunks (i + 8) d')
      else Inr d)"
  by pat_completeness auto
termination
  by (relation "measure (\<lambda>(s, chunks, i, d). chunks - i)") auto

declare aligned_memcpy_loop.simps [simp del]

definition aligned_memcpy_opt :: "buffer \<Rightarrow> buffer \<Rightarrow> nat \<Rightarrow> fault + buffer" where
  "aligned_memcpy_opt dst src sz = (let chunks = sz div 8 in aligned_memcpy_loop src chunks 0 dst)"

text \<open>
  The build without \<open>XMRIG_RISCV\<close> (line 115): \<^verbatim>\<open>memcpy(dst, src, size);\<close>
\<close>

definition aligned_memcpy_opt_fallback :: "buffer \<Rightarrow> buffer \<Rightarrow> nat \<Rightarrow> fault + buffer" where
  "aligned_memcpy_opt_fallback dst src sz = libc_memcpy dst src sz"

section \<open>riscv\_memory.h: \<open>riscv_memcmp_fast\<close>\<close>

text \<open>
  A loop whose body may \<open>return\<close> yields \<open>Some r\<close> when it returned \<open>r\<close>, and
  \<open>None\<close> when it ran to its end and the function goes on.

  The RISC-V build (lines 177-209). The inner loop, entered when two 64-bit words
  differ:
  \<^verbatim>\<open>for (size_t j = i * 8; j < (i + 1) * 8 && j < n; ++j) {
      if (ba[j] != bb[j]) {
          return ba[j] - bb[j];
      }
  }\<close>
\<close>

function memcmp_fast_bytes :: "buffer \<Rightarrow> buffer \<Rightarrow> nat \<Rightarrow> nat \<Rightarrow> nat \<Rightarrow> fault + int option" where
  "memcmp_fast_bytes ba bb i n j =
     (if j < (i + 1) * 8 \<and> j < n then
        (case load8 ba j of
           Inl e \<Rightarrow> Inl e
         | Inr x \<Rightarrow>
             (case load8 bb j of
                Inl e \<Rightarrow> Inl e
              | Inr y \<Rightarrow>
                  if x \<noteq> y then Inr (Some (byte_diff x y))
                  else memcmp_fast_bytes ba bb i n (j + 1)))
      else Inr None)"
  by pat_completeness auto
termination
  by (relation "measure (\<lambda>(ba, bb, i, n, j). n - j)") auto

declare memcmp_fast_bytes.simps [simp del]

text \<open>
  The outer loop:
  \<^verbatim>\<open>for (size_t i = 0; i < qwords; ++i) {
      if (a[i] != b[i]) { ... the inner loop ... }
  }\<close>
\<close>

function memcmp_fast_qwords :: "buffer \<Rightarrow> buffer \<Rightarrow> nat \<Rightarrow> nat \<Rightarrow> nat \<Rightarrow> fault + int option" where
  "memcmp_fast_qwords a b n qwords i =
     (if i < qwords then
        (case load64 a i of
           Inl e \<Rightarrow> Inl e
         | Inr x \<Rightarrow>
             (case load64 b i of
                Inl e \<Rightarrow> Inl e
              | Inr y \<Rightarrow>
                  if x \<noteq> y then
                    (case memcmp_fast_bytes a b i n (i * 8) of
                       Inl e \<Rightarrow> Inl e
                     | Inr (Some r) \<Rightarrow> Inr (Some r)
                     | Inr None \<Rightarrow> memcmp_fast_qwords a b n qwords (i + 1))
                  else memcmp_fast_qwords a b n qwords (i + 1)))
      else Inr None)"
  by pat_completeness auto
termination
  by (relation "measure (\<lambda>(a, b, n, qwords, i). qwords - i)") auto

declare memcmp_fast_qwords.simps [simp del]

text \<open>
  The remainder, on the pointers \<open>ba = s1 + qwords * 8\<close> and \<open>bb = s2 + qwords * 8\<close>:
  \<^verbatim>\<open>for (size_t i = 0; i < remainder; ++i) {
      if (ba[i] != bb[i]) {
          return ba[i] - bb[i];
      }
  }\<close>
\<close>

function memcmp_fast_tail :: "buffer \<Rightarrow> buffer \<Rightarrow> nat \<Rightarrow> nat \<Rightarrow> fault + int option" where
  "memcmp_fast_tail ba bb remainder i =
     (if i < remainder then
        (case load8 ba i of
           Inl e \<Rightarrow> Inl e
         | Inr x \<Rightarrow>
             (case load8 bb i of
                Inl e \<Rightarrow> Inl e
              | Inr y \<Rightarrow>
                  if x \<noteq> y then Inr (Some (byte_diff x y))
                  else memcmp_fast_tail ba bb remainder (i + 1)))
      else Inr None)"
  by pat_completeness auto
termination
  by (relation "measure (\<lambda>(ba, bb, remainder, i). remainder - i)") auto

declare memcmp_fast_tail.simps [simp del]

definition riscv_memcmp_fast :: "buffer \<Rightarrow> buffer \<Rightarrow> nat \<Rightarrow> fault + int" where
  "riscv_memcmp_fast s1 s2 n =
     (let qwords = n div 8 in
      case memcmp_fast_qwords s1 s2 n qwords 0 of
        Inl e \<Rightarrow> Inl e
      | Inr (Some r) \<Rightarrow> Inr r
      | Inr None \<Rightarrow>
          (let remainder = n mod 8 in
           if remainder > 0 then
             (case memcmp_fast_tail (drop (qwords * 8) s1) (drop (qwords * 8) s2) remainder 0 of
                Inl e \<Rightarrow> Inl e
              | Inr (Some r) \<Rightarrow> Inr r
              | Inr None \<Rightarrow> Inr 0)
           else Inr 0))"

text \<open>
  The build without \<open>XMRIG_RISCV\<close> (lines 272-275): \<^verbatim>\<open>return memcmp(s1, s2, n);\<close>
\<close>

definition riscv_memcmp_fast_fallback :: "memcmp_fn \<Rightarrow> buffer \<Rightarrow> buffer \<Rightarrow> nat \<Rightarrow> fault + int" where
  "riscv_memcmp_fast_fallback memcmp s1 s2 n = memcmp s1 s2 n"

section \<open>riscv\_rvv.h: \<open>riscv_memcmp_rvv\<close>\<close>

text \<open>
  The build with the vector extension (lines 147-181). The loop ends with \<open>True\<close>
  when it jumps to \<open>scalar_fallback\<close> and with \<open>False\<close> when it runs to its end.
  \<^verbatim>\<open>while (i < count) {
      vl = __riscv_vsetvl_e64m1(count - i);
      vuint64m1_t va = __riscv_vle64_v_u64m1(a64 + i, vl);
      vuint64m1_t vb = __riscv_vle64_v_u64m1(b64 + i, vl);
      vbool64_t cmp = __riscv_vmsne_vv_u64m1_b64(va, vb, vl);
      if (__riscv_vcpop_m_b64(cmp, vl) > 0) {
          goto scalar_fallback;
      }
      i += vl;
  }\<close>
\<close>

partial_function (option) riscv_memcmp_rvv_loop ::
  "(nat \<Rightarrow> nat) \<Rightarrow> buffer \<Rightarrow> buffer \<Rightarrow> nat \<Rightarrow> nat \<Rightarrow> (fault + bool) option" where
  "riscv_memcmp_rvv_loop vsetvl a b cnt i =
     (if i < cnt then
        (let vl = vsetvl (cnt - i) in
         case vle64_v a i vl of
           Inl e \<Rightarrow> Some (Inl e)
         | Inr va \<Rightarrow>
             (case vle64_v b i vl of
                Inl e \<Rightarrow> Some (Inl e)
              | Inr vb \<Rightarrow>
                  (let cmp = vmsne_vv va vb in
                   if vcpop_m cmp > 0 then Some (Inr True)
                   else riscv_memcmp_rvv_loop vsetvl a b cnt (i + vl))))
      else Some (Inr False))"

text \<open>
  The remainder:
  \<^verbatim>\<open>for (size_t j = 0; j < remainder; j++) {
      if (a8[size - remainder + j] != b8[size - remainder + j]) {
          return a8[size - remainder + j] - b8[size - remainder + j];
      }
  }\<close>
\<close>

function memcmp_rvv_tail :: "buffer \<Rightarrow> buffer \<Rightarrow> nat \<Rightarrow> nat \<Rightarrow> nat \<Rightarrow> fault + int option" where
  "memcmp_rvv_tail a8 b8 sz remainder j =
     (if j < remainder then
        (case load8 a8 (sz - remainder + j) of
           Inl e \<Rightarrow> Inl e
         | Inr x \<Rightarrow>
             (case load8 b8 (sz - remainder + j) of
                Inl e \<Rightarrow> Inl e
              | Inr y \<Rightarrow>
                  if x \<noteq> y then Inr (Some (byte_diff x y))
                  else memcmp_rvv_tail a8 b8 sz remainder (j + 1)))
      else Inr None)"
  by pat_completeness auto
termination
  by (relation "measure (\<lambda>(a8, b8, sz, remainder, j). remainder - j)") auto

declare memcmp_rvv_tail.simps [simp del]

text \<open>
  \<^verbatim>\<open>size_t count = size / 8;
  ... the loop ...
  size_t remainder = size % 8;
  if (remainder) { ... the remainder ... }
  return 0;
  scalar_fallback:
  return memcmp(a, b, size);\<close>
\<close>

definition riscv_memcmp_rvv ::
  "(nat \<Rightarrow> nat) \<Rightarrow> memcmp_fn \<Rightarrow> buffer \<Rightarrow> buffer \<Rightarrow> nat \<Rightarrow> (fault + int) option" where
  "riscv_memcmp_rvv vsetvl memcmp a b sz =
     (let cnt = sz div 8 in
      case riscv_memcmp_rvv_loop vsetvl a b cnt 0 of
        None \<Rightarrow> None
      | Some (Inl e) \<Rightarrow> Some (Inl e)
      | Some (Inr True) \<Rightarrow> Some (memcmp a b sz)
      | Some (Inr False) \<Rightarrow>
          (let remainder = sz mod 8 in
           if remainder \<noteq> 0 then
             (case memcmp_rvv_tail a b sz remainder 0 of
                Inl e \<Rightarrow> Some (Inl e)
              | Inr (Some r) \<Rightarrow> Some (Inr r)
              | Inr None \<Rightarrow> Some (Inr 0))
           else Some (Inr 0)))"

text \<open>
  The build without the vector extension (lines 238-240):
  \<^verbatim>\<open>return memcmp(a, b, size);\<close>
\<close>

definition riscv_memcmp_rvv_scalar :: "memcmp_fn \<Rightarrow> buffer \<Rightarrow> buffer \<Rightarrow> nat \<Rightarrow> fault + int" where
  "riscv_memcmp_rvv_scalar memcmp a b sz = memcmp a b sz"

section \<open>Properties of the scalar bit operations\<close>

subsection \<open>\<open>riscv_add_uw\<close>\<close>

lemma unat_and_low32: "unat ((a :: u64) AND 0xFFFFFFFF) = unat a mod 2 ^ 32"
proof -
  have m: "(0xFFFFFFFF :: u64) = mask 32"
    by (simp add: mask_eq_exp_minus_1)
  show ?thesis
    unfolding m
    by (simp add: unsigned_take_bit_eq take_bit_eq_mod unat_mod flip: take_bit_eq_mask)
qed

lemma low32_sum_less: "unat (a :: u64) mod 2 ^ 32 + unat (b :: u64) mod 2 ^ 32 < 2 ^ 64"
proof -
  have "unat a mod 2 ^ 32 < 2 ^ 32" "unat b mod 2 ^ 32 < 2 ^ 32"
    by simp_all
  then show ?thesis
    by simp
qed

text \<open>
  The RISC-V scalar path truncates both operands, adds, and truncates the sum; the
  path for other architectures truncates both operands and adds, and keeps the carry
  into bit 32.
\<close>

lemma riscv_add_uw_unat:
  "unat (riscv_add_uw a b) = (unat a mod 2 ^ 32 + unat b mod 2 ^ 32) mod 2 ^ 32"
  using low32_sum_less [of a b]
  by (simp add: riscv_add_uw_def unat_and_low32 unat_word_ariths)

lemma riscv_add_uw_fallback_unat:
  "unat (riscv_add_uw_fallback a b) = unat a mod 2 ^ 32 + unat b mod 2 ^ 32"
  using low32_sum_less [of a b]
  by (simp add: riscv_add_uw_fallback_def unat_and_low32 unat_word_ariths)

text \<open>
  C2. The claim: \<open>riscv_add_uw\<close> returns \<open>((a mod 2^32) + (b mod 2^32)) mod 2^32\<close>, and
  the RISC-V scalar path and the path for other architectures return equal values on
  every input. At \<open>a = 0xFFFFFFFF\<close>, \<open>b = 1\<close> the RISC-V scalar path returns \<open>0\<close>, as the
  claim says, and the path for other architectures returns \<open>0x100000000\<close>: it lacks the
  final truncation.
\<close>

theorem riscv_add_uw_paths_differ:
  "riscv_add_uw 0xFFFFFFFF 1 = 0 \<and> riscv_add_uw_fallback 0xFFFFFFFF 1 = 0x100000000"
  by (simp add: riscv_add_uw_def riscv_add_uw_fallback_def)

subsection \<open>\<open>riscv_rotr32\<close>\<close>

lemma rotr32_bits:
  fixes x :: u32
  assumes k: "0 < k" "k < 32"
  shows "drop_bit k x OR push_bit (32 - k) x = word_rotr k x"
proof (rule bit_word_eqI)
  fix n :: nat
  assume "n < LENGTH(32)"
  then have n: "n < 32"
    by simp
  show "bit (drop_bit k x OR push_bit (32 - k) x) n = bit (word_rotr k x) n"
  proof (cases "n + k < 32")
    case True
    then have "(n + k) mod 32 = n + k" "\<not> 32 - k \<le> n"
      by simp_all
    with n show ?thesis
      by (simp add: bit_simps add.commute)
  next
    case False
    then have m: "(n + k) mod 32 = n - (32 - k)" "32 - k \<le> n"
      using n k by (simp_all add: mod_if)
    have "\<not> bit x (k + n)"
      using False bit_imp_le_length [of x "k + n"] by (auto simp: add.commute)
    with n m show ?thesis
      by (simp add: bit_simps)
  qed
qed

lemma word_rotr_32: "word_rotr 32 (x :: u32) = x"
  by (rule bit_word_eqI) (simp add: bit_word_rotr_iff)

lemma riscv_rotr32_in_range:
  assumes "0 < r" "r < 32"
  shows "riscv_rotr32 x r = word_rotr (nat r) x"
proof -
  have m: "r mod 32 = r" "(32 - r) mod 32 = 32 - r"
    using assms by (intro mod_pos_pos_trivial; simp)+
  have n: "nat (32 - r) = 32 - nat r"
    using assms by (simp add: nat_diff_distrib)
  have "drop_bit (nat r) x OR push_bit (32 - nat r) x = word_rotr (nat r) x"
    using assms by (intro rotr32_bits) simp_all
  then show ?thesis
    by (simp only: riscv_rotr32_def c_shr32_def c_shl32_def m n)
qed

text \<open>At \<open>r = 0\<close> the left shift is by 32, which the shifter takes as 0: both halves are \<open>x\<close>.\<close>

lemma riscv_rotr32_zero: "riscv_rotr32 x 0 = x"
  by (simp add: riscv_rotr32_def c_shr32_def c_shl32_def)

lemma riscv_rotr32_round_trip:
  assumes "0 < r" "r < 32"
  shows "riscv_rotr32 (riscv_rotr32 x r) (32 - r) = x"
proof -
  have "word_rotr (nat (32 - r)) (word_rotr (nat r) x) = x"
    using assms by (simp add: word_rotr_word_rotr_eq word_rotr_32 flip: nat_add_distrib)
  then show ?thesis
    using assms riscv_rotr32_in_range [of r x]
      riscv_rotr32_in_range [of "32 - r" "word_rotr (nat r) x"]
    by simp
qed

lemma riscv_rotr32_examples:
  "riscv_rotr32 0x12345678 8 = 0x78123456"
  "riscv_rotr32 0x78123456 24 = 0x12345678"
  "riscv_rotr32 0x80000001 1 = 0xC0000000"
  by (simp_all add: riscv_rotr32_def c_shr32_def c_shl32_def)

text \<open>
  C7. For the scalar \<open>riscv_rotr32\<close>: rotating by 0 is the identity, for every 32-bit
  \<open>x\<close>; and for every \<open>x\<close> and every \<open>r\<close> with \<open>0 < r < 32\<close>, rotating by \<open>r\<close> and
  then by \<open>32 - r\<close> gives \<open>x\<close> back.
\<close>

theorem riscv_rotr32_identity_and_round_trip:
  "riscv_rotr32 x 0 = x \<and>
   (0 < r \<and> r < 32 \<longrightarrow> riscv_rotr32 (riscv_rotr32 x r) (32 - r) = x)"
  by (simp add: riscv_rotr32_zero riscv_rotr32_round_trip)

theorem riscv_rotr32_identity_and_round_trip_witness:
  "riscv_rotr32 0x12345678 0 = 0x12345678 \<and>
   riscv_rotr32 (riscv_rotr32 0x12345678 8) (32 - 8) = 0x12345678"
  using riscv_rotr32_identity_and_round_trip [of "0x12345678" 8]
  by simp

subsection \<open>\<open>riscv_aes_enc_round\<close>\<close>

lemma unat_shift_mask_byte:
  "unat (drop_bit n (x :: u32) AND 0xFF) = (unat x div 2 ^ n) mod 256"
proof -
  have m: "(0xFF :: u32) = mask 8"
    by (simp add: mask_eq_exp_minus_1)
  show ?thesis
    unfolding m
    by (simp add: unsigned_take_bit_eq unat_drop_bit_eq flip: take_bit_eq_mask)
      (simp add: take_bit_eq_mod drop_bit_eq_div)
qed

lemma unat_input_bytes:
  "unat (drop_bit 0 x AND 0xFF) = input_byte x 0"
  "unat (drop_bit 8 x AND 0xFF) = input_byte x 1"
  "unat (drop_bit 16 x AND 0xFF) = input_byte x 2"
  "unat (drop_bit 24 x AND 0xFF) = input_byte x 3"
  unfolding input_byte_def unat_shift_mask_byte by simp_all

text \<open>Every index the round uses lies inside a 256-entry table.\<close>

lemma input_byte_less: "input_byte x k < 256"
  by (simp add: input_byte_def)

lemma riscv_aes_enc_round_bytes:
  "riscv_aes_enc_round T x rk =
     sbox_enc T ! input_byte x 0 XOR sbox_enc T ! input_byte x 1 XOR
     sbox_enc T ! input_byte x 2 XOR sbox_enc T ! input_byte x 3 XOR rk"
  unfolding riscv_aes_enc_round_def Let_def unat_input_bytes
  by (simp add: xor.assoc)

lemma riscv_aes_enc_round_fold:
  "riscv_aes_enc_round T x rk =
     fold (\<lambda>b acc. acc XOR sbox_enc T ! b) (input_bytes x) 0 XOR rk"
  by (simp add: riscv_aes_enc_round_bytes input_bytes_def ac_simps)

text \<open>
  C8. For every 32-bit input and round key, \<open>riscv_aes_enc_round\<close> returns the XOR of
  the four table entries selected by the bytes of the input, from the least to the most
  significant, XORed with the round key.
\<close>

theorem riscv_aes_enc_round_spec:
  "riscv_aes_enc_round T x rk =
     sbox_enc T ! ((unat x div 256 ^ 0) mod 256) XOR
     sbox_enc T ! ((unat x div 256 ^ 1) mod 256) XOR
     sbox_enc T ! ((unat x div 256 ^ 2) mod 256) XOR
     sbox_enc T ! ((unat x div 256 ^ 3) mod 256) XOR rk"
  using riscv_aes_enc_round_bytes [of T x rk]
  by (simp only: input_byte_def)

text \<open>
  C9. Two inputs whose four bytes are permutations of each other (the same bytes with
  the same multiplicities, in any positions) give the same round output, for every
  table and round key.
\<close>

theorem riscv_aes_enc_round_permutation:
  assumes "mset (input_bytes x) = mset (input_bytes y)"
  shows "riscv_aes_enc_round T x rk = riscv_aes_enc_round T y rk"
proof -
  have "fold (\<lambda>b acc. acc XOR sbox_enc T ! b) (input_bytes x) =
        fold (\<lambda>b acc. acc XOR sbox_enc T ! b) (input_bytes y)"
    by (rule fold_multiset_equiv [OF _ assms]) (simp add: fun_eq_iff ac_simps)
  then show ?thesis
    by (simp only: riscv_aes_enc_round_fold)
qed

text \<open>The byte swap of \<open>0x01020304\<close> is \<open>0x04030201\<close>.\<close>

theorem riscv_aes_enc_round_permutation_witness:
  "mset (input_bytes 0x01020304) = mset (input_bytes 0x04030201) \<and>
   riscv_aes_enc_round \<lparr>sbox_enc = map of_nat [0..<256], sbox_dec = []\<rparr> 0x01020304 7 =
   riscv_aes_enc_round \<lparr>sbox_enc = map of_nat [0..<256], sbox_dec = []\<rparr> 0x04030201 7"
proof -
  have h: "mset (input_bytes 0x01020304) = mset (input_bytes 0x04030201)"
    by (simp add: input_bytes_def input_byte_def)
  show ?thesis
    using h riscv_aes_enc_round_permutation [OF h] by simp
qed

section \<open>Properties of the scheduling advice\<close>

subsection \<open>\<open>riscv_optimal_init_threads\<close>\<close>

lemma riscv_optimal_init_threads_unat:
  "unat a * 3 < 2 ^ 32 \<Longrightarrow>
   unat (riscv_optimal_init_threads a) = max 1 (unat a * 3 div 4)"
  unfolding riscv_optimal_init_threads_def Let_def
  by (simp add: unat_div unat_word_ariths word_greater_zero_iff flip: unat_eq_zero)

lemma riscv_optimal_init_threads_examples:
  "riscv_optimal_init_threads 0 = 1"
  "riscv_optimal_init_threads 1 = 1"
  "riscv_optimal_init_threads 8 = 6"
  "riscv_optimal_init_threads 16 = 12"
  "riscv_optimal_init_threads 100 = 75"
  by (simp_all add: riscv_optimal_init_threads_def Let_def)

text \<open>
  C5 as stated, \<open>max(1, floor(available * 3 / 4))\<close> for every input on every build
  variant, fails: the build for other architectures returns 8 for 8 available threads,
  not 6; and on the RISC-V build the product \<open>available * 3\<close> is a \<open>uint32_t\<close> and
  wraps around, so that \<open>2^31\<close> available threads give \<open>2^29\<close>.
\<close>

theorem riscv_optimal_init_threads_counterexample:
  "unat (riscv_optimal_init_threads_fallback 8) \<noteq> max 1 (unat (8 :: u32) * 3 div 4) \<and>
   unat (riscv_optimal_init_threads 0x80000000) \<noteq>
     max 1 (unat (0x80000000 :: u32) * 3 div 4)"
  by (simp add: riscv_optimal_init_threads_fallback_def riscv_optimal_init_threads_def Let_def)

text \<open>
  C5, amended. On the RISC-V build, for every input whose triple fits in 32 bits,
  \<open>riscv_optimal_init_threads\<close> equals \<open>max(1, floor(available * 3 / 4))\<close>; the build
  for other architectures returns its input unchanged.
\<close>

theorem riscv_optimal_init_threads_amended:
  "unat a * 3 < 2 ^ 32 \<Longrightarrow>
   unat (riscv_optimal_init_threads a) = max 1 (unat a * 3 div 4) \<and>
   riscv_optimal_init_threads_fallback a = a"
  by (simp add: riscv_optimal_init_threads_unat riscv_optimal_init_threads_fallback_def)

theorem riscv_optimal_init_threads_amended_witness:
  "unat (100 :: u32) * 3 < 2 ^ 32 \<and>
   unat (riscv_optimal_init_threads 100) = 75 \<and>
   riscv_optimal_init_threads_fallback 100 = 100"
proof -
  have h: "unat (100 :: u32) * 3 < 2 ^ 32"
    by simp
  show ?thesis
    using h riscv_optimal_init_threads_amended [OF h] by simp
qed

subsection \<open>\<open>get_optimal_cpu_core\<close>\<close>

lemma smod_between:
  fixes a b :: int
  shows "min 0 a \<le> a smod b \<and> a smod b \<le> max 0 a"
proof (cases "0 \<le> a")
  case True
  then have "a smod b = a mod \<bar>b\<bar>"
    by (cases "a = 0") (simp_all add: signed_modulo_int_def)
  moreover have "0 \<le> a mod \<bar>b\<bar>" "a mod \<bar>b\<bar> \<le> a"
    using True by (cases "b = 0"; simp add: zmod_le_nonneg_dividend)+
  ultimately show ?thesis
    using True by simp
next
  case False
  then have e: "a smod b = - ((- a) mod \<bar>b\<bar>)"
    by (simp add: signed_modulo_int_def)
  have "0 \<le> (- a) mod \<bar>b\<bar>" "(- a) mod \<bar>b\<bar> \<le> - a"
    using False by (cases "b = 0"; simp add: zmod_le_nonneg_dividend)+
  then show ?thesis
    using False e by simp
qed

lemma sint_word_of_int_32:
  "- (2 ^ 31) \<le> k \<Longrightarrow> k < 2 ^ 31 \<Longrightarrow> sint (word_of_int k :: u32) = k"
  by (simp add: sint_sbintrunc' signed_take_bit_int_eq_self)

lemma sint_word_of_int_64:
  "- (2 ^ 63) \<le> k \<Longrightarrow> k < 2 ^ 63 \<Longrightarrow> sint (word_of_int k :: u64) = k"
  by (simp add: sint_sbintrunc' signed_take_bit_int_eq_self)

text \<open>
  The remainder is never larger in magnitude than \<open>thread_id\<close>, so neither conversion
  changes it: the RISC-V build returns C's remainder of \<open>thread_id\<close> by the clamped
  processor count.
\<close>

lemma get_optimal_cpu_core_sint:
  "sint (get_optimal_cpu_core sc t) = sint t smod max 1 (sint sc)"
proof -
  define nprocs where "nprocs = (if sint sc \<le> 0 then 1 else sc)"
  define k where "k = sint t smod sint nprocs"
  have np: "sint nprocs = max 1 (sint sc)"
    by (simp add: nprocs_def max_def)
  have t: "- (2 ^ 31) \<le> sint t" "sint t < 2 ^ 31"
    using sint_ge [of t] sint_lt [of t] by simp_all
  have "min 0 (sint t) \<le> k" "k \<le> max 0 (sint t)"
    using smod_between [of "sint t" "sint nprocs"] by (simp_all add: k_def)
  with t have k: "- (2 ^ 31) \<le> k" "k < 2 ^ 31"
    by simp_all
  then have "sint (word_of_int k :: u64) = k"
    by (intro sint_word_of_int_64) simp_all
  with k have "sint (word_of_int (sint (word_of_int k :: u64)) :: u32) = k"
    by (simp add: sint_word_of_int_32)
  then show ?thesis
    by (simp add: get_optimal_cpu_core_def Let_def k_def np flip: nprocs_def)
qed

lemma get_optimal_cpu_core_examples:
  "get_optimal_cpu_core 4 5 = 1"
  "get_optimal_cpu_core 0 t = 0"
  "sint (get_optimal_cpu_core 4 (- 1)) = - 1"
  by (simp_all add: get_optimal_cpu_core_def signed_modulo_int_def)

text \<open>
  C6 as stated, \<open>threadId mod max(1, onlineProcessors)\<close> on every build variant, fails:
  the build for other architectures returns the thread id itself, 5 for thread 5 on 4
  processors, where the claim says 1.
\<close>

theorem get_optimal_cpu_core_counterexample:
  "sint (get_optimal_cpu_core_fallback 4 5) \<noteq> sint (5 :: u32) mod max 1 (sint (4 :: u64))"
  by (simp add: get_optimal_cpu_core_fallback_def)

text \<open>
  C6, amended. On the RISC-V build, for every thread id and every reported processor
  count (zero and negative counts included), \<open>get_optimal_cpu_core\<close> is C's remainder
  of the thread id by \<open>max(1, onlineProcessors)\<close>, which for a thread id that is not
  negative is \<open>threadId mod max(1, onlineProcessors)\<close>; the build for other
  architectures returns the thread id unchanged.
\<close>

theorem get_optimal_cpu_core_amended:
  "sint (get_optimal_cpu_core sc t) = sint t smod max 1 (sint sc) \<and>
   (0 \<le> sint t \<longrightarrow> sint (get_optimal_cpu_core sc t) = sint t mod max 1 (sint sc)) \<and>
   get_optimal_cpu_core_fallback sc t = t"
proof -
  have "sint t smod max 1 (sint sc) = sint t mod max 1 (sint sc)" if "0 \<le> sint t"
    using that by (cases "sint t = 0") (simp_all add: signed_modulo_int_def)
  then show ?thesis
    by (simp add: get_optimal_cpu_core_sint get_optimal_cpu_core_fallback_def)
qed

theorem get_optimal_cpu_core_amended_witness:
  "0 \<le> sint (5 :: u32) \<and> sint (get_optimal_cpu_core 4 5) = 1 \<and>
   sint (get_optimal_cpu_core 0 5) = 0 \<and> get_optimal_cpu_core_fallback 4 5 = 5"
  using get_optimal_cpu_core_amended [of 4 5] get_optimal_cpu_core_amended [of 0 5]
  by (simp add: signed_modulo_int_def)

section \<open>Words in memory\<close>

text \<open>Two 64-bit words read from memory are equal only if their eight bytes are, and
  storing a word that was read from eight bytes stores those bytes.\<close>

lemma bit_le_word:
  "bit (le_word bs :: u64) n \<longleftrightarrow> n < 64 \<and> n div 8 < length bs \<and> bit (bs ! (n div 8)) (n mod 8)"
  by (simp only: le_word_def word_rcat_def o_def rev_rev_ident bit_word_of_int_iff
      bit_horner_sum_uint_exp_iff) simp

lemma le_word_inj:
  assumes "length xs = 8" "length ys = 8" "(le_word xs :: u64) = le_word ys"
  shows "xs = ys"
proof (rule nth_equalityI)
  show "length xs = length ys" using assms by simp
next
  fix k assume "k < length xs"
  then have k: "k < 8" using assms by simp
  show "xs ! k = ys ! k"
  proof (rule bit_word_eqI)
    fix j assume "j < LENGTH(8)"
    then have j: "j < 8" by simp
    have d: "(8 * k + j) div 8 = k" "(8 * k + j) mod 8 = j" "8 * k + j < 64"
      using j k by simp_all
    have "bit (le_word xs :: u64) (8 * k + j) = bit (le_word ys :: u64) (8 * k + j)"
      using assms(3) by simp
    then show "bit (xs ! k) j = bit (ys ! k) j"
      using k d assms(1,2) by (simp add: bit_le_word)
  qed
qed

lemma qword_bytes_eq:
  assumes "8 * i + 8 \<le> length a" "8 * i + 8 \<le> length b"
    and "(le_word (take 8 (drop (8 * i) a)) :: u64) = le_word (take 8 (drop (8 * i) b))"
    and "8 * i \<le> m" "m < 8 * i + 8"
  shows "a ! m = b ! m"
proof -
  have "take 8 (drop (8 * i) a) = take 8 (drop (8 * i) b)"
    using assms(1,2,3) by (intro le_word_inj) simp_all
  then have "take 8 (drop (8 * i) a) ! (m - 8 * i) = take 8 (drop (8 * i) b) ! (m - 8 * i)"
    by simp
  then show ?thesis
    using assms by simp
qed

lemma le_bytes_le_word:
  assumes "length bs = 8"
  shows "le_bytes 8 (le_word bs :: u64) = bs"
proof (rule nth_equalityI)
  show "length (le_bytes 8 (le_word bs :: u64)) = length bs"
    using assms by (simp add: le_bytes_def)
next
  fix k assume "k < length (le_bytes 8 (le_word bs :: u64))"
  then have k: "k < 8"
    by (simp add: le_bytes_def)
  show "le_bytes 8 (le_word bs :: u64) ! k = bs ! k"
  proof (rule bit_word_eqI)
    fix j assume "j < LENGTH(8)"
    then have j: "j < 8" by simp
    have d: "(8 * k + j) div 8 = k" "(8 * k + j) mod 8 = j" "8 * k + j < 64"
      using j k by simp_all
    show "bit (le_bytes 8 (le_word bs :: u64) ! k) j = bit (bs ! k) j"
      using k j d assms by (simp add: le_bytes_def bit_simps bit_le_word)
  qed
qed

section \<open>Properties of the bulk fill and the bulk copy\<close>

subsection \<open>\<open>riscv_memset_rvv\<close>\<close>

text \<open>The build without the vector extension fills with the low byte of the pattern.\<close>

lemma ucast_low_byte: "(ucast ((p :: u32) AND 0xFF) :: u8) = ucast p"
proof -
  have m: "(0xFF :: u32) = mask 8"
    by (simp add: mask_eq_exp_minus_1)
  show ?thesis
    unfolding m by (rule bit_word_eqI) (simp add: bit_simps)
qed

lemma riscv_memset_rvv_scalar_eq:
  "sz \<le> length dst \<Longrightarrow>
   riscv_memset_rvv_scalar dst pattern sz = Inr (replicate sz (ucast pattern) @ drop sz dst)"
  by (simp add: riscv_memset_rvv_scalar_def libc_memset_def ucast_low_byte)

text \<open>
  The build with the vector extension returns on every conforming processor, and fills
  whole 32-bit words with the pattern and the remaining bytes with its low byte.
\<close>

lemma length_le_bytes: "length (le_bytes n w) = n"
  by (simp add: le_bytes_def)

lemma length_concat_replicate_le_bytes:
  "length (concat (replicate k (le_bytes 4 (p :: u32)))) = 4 * k"
  by (induction k) (simp_all add: length_le_bytes)

lemma vse32_v_ok:
  "4 * (i + vl) \<le> length buf \<Longrightarrow>
   vse32_v buf i (vmv_v_x p vl) =
     Inr (take (4 * i) buf @ concat (replicate vl (le_bytes 4 p)) @ drop (4 * (i + vl)) buf)"
  by (simp add: vse32_v_def vmv_v_x_def)

lemma riscv_memset_rvv_loop_eq:
  assumes "vsetvl_conforms vsetvl"
  shows "i \<le> cnt \<Longrightarrow> 4 * cnt \<le> length dst \<Longrightarrow>
     riscv_memset_rvv_loop vsetvl p cnt i dst =
       Some (Inr (take (4 * i) dst @ concat (replicate (cnt - i) (le_bytes 4 p)) @
                  drop (4 * cnt) dst))"
proof (induction "cnt - i" arbitrary: i dst rule: less_induct)
  case less
  show ?case
  proof (cases "i < cnt")
    case False
    then have "i = cnt"
      using less.prems by simp
    then show ?thesis
      by (subst riscv_memset_rvv_loop.simps) simp
  next
    case True
    define vl where "vl = vsetvl (cnt - i)"
    have "0 < vsetvl (cnt - i) \<and> vsetvl (cnt - i) \<le> cnt - i"
      using True assms by (simp add: vsetvl_conforms_def)
    then have vl: "0 < vl" "i + vl \<le> cnt"
      using True unfolding vl_def by linarith+
    define dst' where
      "dst' = take (4 * i) dst @ concat (replicate vl (le_bytes 4 p)) @ drop (4 * (i + vl)) dst"
    have st: "vse32_v dst i (vmv_v_x p vl) = Inr dst'"
      using vl less.prems by (simp add: vse32_v_ok dst'_def)
    have len: "length dst' = length dst"
      using vl less.prems by (simp add: dst'_def length_concat_replicate_le_bytes)
    have dec: "cnt - (i + vl) < cnt - i"
      using vl True by simp
    have ih: "riscv_memset_rvv_loop vsetvl p cnt (i + vl) dst' =
       Some (Inr (take (4 * (i + vl)) dst' @ concat (replicate (cnt - (i + vl)) (le_bytes 4 p)) @
                  drop (4 * cnt) dst'))"
      using less.prems len by (intro less.hyps [OF dec] vl) simp_all
    have t: "take (4 * (i + vl)) dst' = take (4 * i) dst @ concat (replicate vl (le_bytes 4 p))"
      using vl less.prems by (simp add: dst'_def length_concat_replicate_le_bytes)
    have d: "drop (4 * cnt) dst' = drop (4 * cnt) dst"
      using vl less.prems by (simp add: dst'_def length_concat_replicate_le_bytes)
    have r: "replicate vl (le_bytes 4 p) @ replicate (cnt - (i + vl)) (le_bytes 4 p) =
             replicate (cnt - i) (le_bytes 4 p)"
      using vl by (simp flip: replicate_add)
    have "take (4 * (i + vl)) dst' @ concat (replicate (cnt - (i + vl)) (le_bytes 4 p)) @
            drop (4 * cnt) dst' =
          take (4 * i) dst @ concat (replicate (cnt - i) (le_bytes 4 p)) @ drop (4 * cnt) dst"
      unfolding t d by (simp flip: r)
    then show ?thesis
      using True st ih
      by (subst riscv_memset_rvv_loop.simps) (simp add: Let_def flip: vl_def)
  qed
qed

lemma riscv_memset_rvv_eq:
  assumes "vsetvl_conforms vsetvl" "sz \<le> length dst"
  shows "riscv_memset_rvv vsetvl dst p sz =
     Some (Inr (concat (replicate (sz div 4) (le_bytes 4 p)) @ replicate (sz mod 4) (ucast p) @
                drop sz dst))"
proof -
  define cnt where "cnt = sz div 4"
  define remainder where "remainder = sz mod 4"
  have sz: "4 * cnt \<le> sz" "sz - remainder = 4 * cnt" "4 * cnt + remainder = sz"
    by (simp_all add: cnt_def remainder_def minus_mod_eq_mult_div)
  define dst' where "dst' = concat (replicate cnt (le_bytes 4 p)) @ drop (4 * cnt) dst"
  have loop: "riscv_memset_rvv_loop vsetvl p cnt 0 dst = Some (Inr dst')"
    using riscv_memset_rvv_loop_eq [OF assms(1), of 0 cnt dst p] sz assms(2)
    by (simp add: dst'_def)
  have len: "length dst' = length dst"
    using sz assms(2) by (simp add: dst'_def length_concat_replicate_le_bytes)
  show ?thesis
  proof (cases "remainder = 0")
    case True
    then show ?thesis
      using loop sz
      by (simp add: riscv_memset_rvv_def dst'_def flip: cnt_def remainder_def)
  next
    case False
    have "libc_memset dst' (sz - remainder) (p AND 0xFF) remainder =
          Inr (concat (replicate cnt (le_bytes 4 p)) @ replicate remainder (ucast p) @ drop sz dst)"
      using sz assms(2) len
      by (simp add: libc_memset_def ucast_low_byte dst'_def length_concat_replicate_le_bytes)
    then show ?thesis
      using loop False
      by (simp add: riscv_memset_rvv_def flip: cnt_def remainder_def)
  qed
qed

text \<open>The two builds agree on the patterns whose four bytes are equal.\<close>

lemma riscv_memset_builds_agree:
  assumes "le_bytes 4 p = replicate 4 (ucast p)" "vsetvl_conforms vsetvl" "sz \<le> length dst"
  shows "riscv_memset_rvv vsetvl dst p sz = Some (riscv_memset_rvv_scalar dst p sz)"
proof -
  have "concat (replicate k (replicate 4 c)) = replicate (4 * k) c" for k and c :: u8
    by (induction k) (simp_all add: replicate_add)
  then have "concat (replicate (sz div 4) (le_bytes 4 p)) @ replicate (sz mod 4) (ucast p) =
        replicate sz (ucast p)"
    by (simp add: assms(1) flip: replicate_add)
  then show ?thesis
    using assms(2,3) by (simp add: riscv_memset_rvv_eq riscv_memset_rvv_scalar_eq)
qed

text \<open>
  C1. The claim: the build of \<open>riscv_memset_rvv\<close> with the vector extension and the
  build without it leave the same bytes in the destination, for every pattern and
  length. On a 4-byte destination with the pattern \<open>0x01020304\<close> and length 4, the
  vector build stores the 32-bit pattern, the bytes \<open>04 03 02 01\<close>, and the scalar build
  stores the low byte of the pattern four times, \<open>04 04 04 04\<close>.
\<close>

theorem riscv_memset_rvv_builds_differ:
  "riscv_memset_rvv (vsetvl_vlmax 4) [0, 0, 0, 0] 0x01020304 4 = Some (Inr [4, 3, 2, 1]) \<and>
   riscv_memset_rvv_scalar [0, 0, 0, 0] 0x01020304 4 = Inr [4, 4, 4, 4]"
proof -
  have "riscv_memset_rvv (vsetvl_vlmax 4) [0, 0, 0, 0] 0x01020304 4 = Some (Inr [4, 3, 2, 1])"
    by (simp add: riscv_memset_rvv_def riscv_memset_rvv_loop.simps vsetvl_vlmax_def vmv_v_x_def
        vse32_v_def Let_def le_bytes_def upt_rec)
  moreover have "riscv_memset_rvv_scalar [0, 0, 0, 0] 0x01020304 4 = Inr [4, 4, 4, 4]"
    by code_simp
  ultimately show ?thesis
    by simp
qed

subsection \<open>\<open>aligned_memcpy_opt\<close>\<close>

text \<open>The build for other architectures copies exactly the requested bytes.\<close>

lemma aligned_memcpy_opt_fallback_eq:
  "sz \<le> length dst \<Longrightarrow> sz \<le> length src \<Longrightarrow>
   aligned_memcpy_opt_fallback dst src sz = Inr (take sz src @ drop sz dst)"
  by (simp add: aligned_memcpy_opt_fallback_def libc_memcpy_def)

text \<open>
  Within the buffers, the RISC-V build copies the first \<open>64 * ceil(chunks / 8)\<close> bytes,
  where \<open>chunks = size / 8\<close>: whole groups of eight words, whatever \<open>size\<close> is. The
  two builds agree on the sizes that are multiples of 64.
\<close>

lemma copy_qword_eq:
  assumes "8 * k + 8 \<le> length s" "8 * k + 8 \<le> length d"
  shows "copy_qword s k d = Inr (take (8 * k) d @ take 8 (drop (8 * k) s) @ drop (8 * k + 8) d)"
  using assms
  by (simp add: copy_qword_def then_do_def load64_def store64_def le_bytes_le_word)

lemma copy_qword_prefix:
  assumes "8 * k + 8 \<le> length s" "8 * k + 8 \<le> length d"
  shows "copy_qword s k (take (8 * k) s @ drop (8 * k) d) =
     Inr (take (8 * (k + 1)) s @ drop (8 * (k + 1)) d)"
proof -
  have e: "8 * (k + 1) = 8 * k + 8"
    by simp
  have "take (8 * k + 8) s = take (8 * k) s @ take 8 (drop (8 * k) s)"
    by (rule take_add)
  then show ?thesis
    unfolding e using assms by (simp add: copy_qword_eq add.commute)
qed

lemma aligned_memcpy_body_prefix:
  assumes "8 * i + 64 \<le> length s" "8 * i + 64 \<le> length d"
  shows "aligned_memcpy_body s i (take (8 * i) s @ drop (8 * i) d) =
     Inr (take (8 * (i + 8)) s @ drop (8 * (i + 8)) d)"
proof -
  define D where "D j = take (8 * (i + j)) s @ drop (8 * (i + j)) d" for j
  have s0: "copy_qword s i (D 0) = Inr (D 1)"
    unfolding D_def using copy_qword_prefix [of i s d] assms by (simp add: algebra_simps)
  have s1: "copy_qword s (i + 1) (D 1) = Inr (D 2)"
    unfolding D_def using copy_qword_prefix [of "i + 1" s d] assms by (simp add: algebra_simps)
  have s2: "copy_qword s (i + 2) (D 2) = Inr (D 3)"
    unfolding D_def using copy_qword_prefix [of "i + 2" s d] assms by (simp add: algebra_simps)
  have s3: "copy_qword s (i + 3) (D 3) = Inr (D 4)"
    unfolding D_def using copy_qword_prefix [of "i + 3" s d] assms by (simp add: algebra_simps)
  have s4: "copy_qword s (i + 4) (D 4) = Inr (D 5)"
    unfolding D_def using copy_qword_prefix [of "i + 4" s d] assms by (simp add: algebra_simps)
  have s5: "copy_qword s (i + 5) (D 5) = Inr (D 6)"
    unfolding D_def using copy_qword_prefix [of "i + 5" s d] assms by (simp add: algebra_simps)
  have s6: "copy_qword s (i + 6) (D 6) = Inr (D 7)"
    unfolding D_def using copy_qword_prefix [of "i + 6" s d] assms by (simp add: algebra_simps)
  have s7: "copy_qword s (i + 7) (D 7) = Inr (D 8)"
    unfolding D_def using copy_qword_prefix [of "i + 7" s d] assms by (simp add: algebra_simps)
  have "aligned_memcpy_body s i (D 0) = Inr (D 8)"
    by (simp only: aligned_memcpy_body_def then_do_def s0 s1 s2 s3 s4 s5 s6 s7 sum.case)
  then show ?thesis
    by (simp add: D_def)
qed

lemma aligned_memcpy_loop_prefix:
  assumes "64 * ((chunks + 7) div 8) \<le> length s" "64 * ((chunks + 7) div 8) \<le> length d"
  shows "q \<le> (chunks + 7) div 8 \<Longrightarrow>
     aligned_memcpy_loop s chunks (8 * q) (take (64 * q) s @ drop (64 * q) d) =
       Inr (take (64 * ((chunks + 7) div 8)) s @ drop (64 * ((chunks + 7) div 8)) d)"
proof (induction "(chunks + 7) div 8 - q" arbitrary: q)
  case 0
  then have q: "q = (chunks + 7) div 8"
    by simp
  then have "\<not> 8 * q < chunks"
    by simp
  then show ?case
    using q by (subst aligned_memcpy_loop.simps) simp
next
  case (Suc n)
  define D where "D k = take (64 * k) s @ drop (64 * k) d" for k
  have lt: "q < (chunks + 7) div 8"
    using Suc.hyps(2) by simp
  then have run: "8 * q < chunks"
    by simp
  have bound: "8 * (8 * q) + 64 \<le> length s" "8 * (8 * q) + 64 \<le> length d"
    using lt assms by simp_all
  have body: "aligned_memcpy_body s (8 * q) (D q) = Inr (D (q + 1))"
    using aligned_memcpy_body_prefix [OF bound] by (simp add: D_def algebra_simps)
  have e: "8 * q + 8 = 8 * (q + 1)"
    by simp
  have "aligned_memcpy_loop s chunks (8 * (q + 1)) (D (q + 1)) = Inr (D ((chunks + 7) div 8))"
    unfolding D_def using Suc.hyps(2) lt by (intro Suc.hyps(1)) simp_all
  then have "aligned_memcpy_loop s chunks (8 * q) (D q) = Inr (D ((chunks + 7) div 8))"
    using run body by (subst aligned_memcpy_loop.simps) (simp only: e if_True sum.case)
  then show ?case
    by (simp only: D_def)
qed

lemma aligned_memcpy_opt_eq:
  assumes "64 * ((sz div 8 + 7) div 8) \<le> length src" "64 * ((sz div 8 + 7) div 8) \<le> length dst"
  shows "aligned_memcpy_opt dst src sz =
     Inr (take (64 * ((sz div 8 + 7) div 8)) src @ drop (64 * ((sz div 8 + 7) div 8)) dst)"
  using aligned_memcpy_loop_prefix [OF assms, of 0]
  by (simp add: aligned_memcpy_opt_def)

lemma aligned_memcpy_opt_whole_groups:
  assumes "sz mod 64 = 0" "sz \<le> length src" "sz \<le> length dst"
  shows "aligned_memcpy_opt dst src sz = aligned_memcpy_opt_fallback dst src sz"
proof -
  obtain k where k: "sz = 64 * k"
    using assms(1) by (auto simp: mod_eq_0_iff_dvd)
  have "sz div 8 = 8 * k"
    unfolding k by simp
  then have "64 * ((sz div 8 + 7) div 8) = sz"
    unfolding k by simp
  then show ?thesis
    using assms aligned_memcpy_opt_eq [of sz src dst]
    by (simp add: aligned_memcpy_opt_fallback_def libc_memcpy_def)
qed

text \<open>
  C3. The claim: after \<open>aligned_memcpy_opt(dst, src, L)\<close> the first \<open>L\<close> bytes of
  \<open>dst\<close> equal those of \<open>src\<close> and the bytes from offset \<open>L\<close> on are unchanged. The
  RISC-V build copies whole groups of eight 64-bit words and nothing else:
  \<^item> with \<open>L = 1\<close> it copies nothing, and \<open>dst[0]\<close> keeps its old value;
  \<^item> with \<open>L = 8\<close> on 8-byte buffers it goes on to the words 1 to 7, outside both
    buffers;
  \<^item> with \<open>L = 8\<close> on 64-byte buffers it copies all 64 bytes, overwriting the 56 bytes
    past the requested range.
  The build for other architectures, \<open>memcpy\<close>, copies exactly one byte in the first
  case.
\<close>

theorem aligned_memcpy_opt_tail_and_overrun:
  "aligned_memcpy_opt [0] [7] 1 = Inr [0] \<and>
   aligned_memcpy_opt_fallback [0] [7] 1 = Inr [7] \<and>
   aligned_memcpy_opt (replicate 8 0) (replicate 8 1) 8 = Inl OutOfBounds \<and>
   aligned_memcpy_opt (replicate 64 0) (replicate 64 1) 8 = Inr (replicate 64 1)"
proof -
  have "aligned_memcpy_opt [0] [7] 1 = Inr [0]"
    by (simp add: aligned_memcpy_opt_def aligned_memcpy_loop.simps)
  moreover have "aligned_memcpy_opt_fallback [0] [7] 1 = Inr [7]"
    by (simp add: aligned_memcpy_opt_fallback_def libc_memcpy_def)
  moreover have "aligned_memcpy_opt (replicate 8 0) (replicate 8 1) 8 = Inl OutOfBounds"
    by (simp add: aligned_memcpy_opt_def aligned_memcpy_loop.simps aligned_memcpy_body_def
        copy_qword_def then_do_def load64_def store64_def)
  moreover have "aligned_memcpy_opt (replicate 64 0) (replicate 64 1) 8 = Inr (replicate 64 1)"
    by code_simp
  ultimately show ?thesis
    by simp
qed

section \<open>Properties of the bulk compare\<close>

subsection \<open>The reference scan\<close>

text \<open>
  \<open>first_diff_from a b n j\<close> scans the indices \<open>j, j + 1, ..., n - 1\<close> upwards and stops
  at the first one where the buffers differ.
\<close>

lemma first_diff_from_end: "first_diff_from a b n n = 0"
  by (subst first_diff_from.simps) simp

lemma first_diff_from_skip:
  assumes "\<forall>m. j \<le> m \<and> m < k \<longrightarrow> a ! m = b ! m" "k \<le> n" "j \<le> k"
  shows "first_diff_from a b n j = first_diff_from a b n k"
  using assms
proof (induction a b n j rule: first_diff_from.induct)
  case (1 a b n j)
  show ?case
  proof (cases "j < k")
    case True
    then have "a ! j = b ! j" "j < n" using "1.prems" by simp_all
    moreover have "first_diff_from a b n (j + 1) = first_diff_from a b n k"
      using "1.prems" True \<open>a ! j = b ! j\<close> \<open>j < n\<close> by (intro "1.IH") simp_all
    ultimately show ?thesis
      by (subst first_diff_from.simps) simp
  next
    case False
    then show ?thesis using "1.prems" by simp
  qed
qed

lemma first_diff_from_refl: "first_diff_from a a n j = 0"
proof (induction "n - j" arbitrary: j)
  case 0
  then show ?case
    by (subst first_diff_from.simps) simp
next
  case (Suc d)
  then have "first_diff_from a a n (j + 1) = 0"
    by simp
  then show ?case
    by (subst first_diff_from.simps) simp
qed

lemma first_diff_from_hit:
  "j < n \<Longrightarrow> a ! j \<noteq> b ! j \<Longrightarrow> first_diff_from a b n j = byte_diff (a ! j) (b ! j)"
  by (subst first_diff_from.simps) simp

lemma first_diff_from_first:
  assumes "i < n" "a ! i \<noteq> b ! i" "\<forall>j<i. a ! j = b ! j"
  shows "first_diff_from a b n 0 = byte_diff (a ! i) (b ! i)"
proof -
  have "first_diff_from a b n 0 = first_diff_from a b n i"
    using assms by (intro first_diff_from_skip) simp_all
  then show ?thesis
    using assms by (simp add: first_diff_from_hit)
qed

subsection \<open>\<open>riscv_memcmp_fast\<close> computes the reference scan\<close>

lemma load8_ok: "i < length buf \<Longrightarrow> load8 buf i = Inr (buf ! i)"
  by (simp add: load8_def)

lemma memcmp_fast_bytes_correct:
  assumes "n \<le> length ba" "n \<le> length bb"
  shows "\<exists>res. memcmp_fast_bytes ba bb i n j = Inr res \<and>
     (case res of
        Some r \<Rightarrow> first_diff_from ba bb n j = r
      | None \<Rightarrow> (\<forall>m. j \<le> m \<and> m < (i + 1) * 8 \<and> m < n \<longrightarrow> ba ! m = bb ! m))"
  using assms
proof (induction ba bb i n j rule: memcmp_fast_bytes.induct)
  case (1 ba bb i n j)
  show ?case
  proof (cases "j < (i + 1) * 8 \<and> j < n")
    case False
    then show ?thesis
      by (subst memcmp_fast_bytes.simps) auto
  next
    case True
    then have l: "load8 ba j = Inr (ba ! j)" "load8 bb j = Inr (bb ! j)"
      using "1.prems" by (simp_all add: load8_ok)
    show ?thesis
    proof (cases "ba ! j = bb ! j")
      case False
      then show ?thesis
        using True l by (subst memcmp_fast_bytes.simps) (simp add: first_diff_from_hit)
    next
      case eq: True
      obtain res where res: "memcmp_fast_bytes ba bb i n (j + 1) = Inr res"
        "case res of Some r \<Rightarrow> first_diff_from ba bb n (j + 1) = r
         | None \<Rightarrow> (\<forall>m. j + 1 \<le> m \<and> m < (i + 1) * 8 \<and> m < n \<longrightarrow> ba ! m = bb ! m)"
        using "1.IH" [OF True l(1) l(2)] eq "1.prems" by auto
      have step: "memcmp_fast_bytes ba bb i n j = Inr res"
        using True l eq res(1) by (subst memcmp_fast_bytes.simps) simp
      have fd: "first_diff_from ba bb n j = first_diff_from ba bb n (j + 1)"
        using True eq by (subst first_diff_from.simps) simp
      have "\<forall>m. j \<le> m \<and> m < (i + 1) * 8 \<and> m < n \<longrightarrow> ba ! m = bb ! m"
        if "\<forall>m. j + 1 \<le> m \<and> m < (i + 1) * 8 \<and> m < n \<longrightarrow> ba ! m = bb ! m"
        using that eq by (metis Suc_eq_plus1 Suc_leI le_neq_implies_less)
      then show ?thesis
        using step fd res(2) by (cases res) (simp_all)
    qed
  qed
qed

lemma load64_ok:
  "8 * i + 8 \<le> length buf \<Longrightarrow> load64 buf i = Inr (le_word (take 8 (drop (8 * i) buf)))"
  by (simp add: load64_def)

lemma memcmp_fast_qwords_correct:
  assumes "n \<le> length a" "n \<le> length b" "qwords * 8 \<le> n" "i \<le> qwords"
    and "first_diff_from a b n 0 = first_diff_from a b n (i * 8)"
  shows "\<exists>res. memcmp_fast_qwords a b n qwords i = Inr res \<and>
     (case res of
        Some r \<Rightarrow> first_diff_from a b n 0 = r
      | None \<Rightarrow> first_diff_from a b n 0 = first_diff_from a b n (qwords * 8))"
  using assms
proof (induction a b n qwords i rule: memcmp_fast_qwords.induct)
  case (1 a b n qwords i)
  show ?case
  proof (cases "i < qwords")
    case False
    then have "i = qwords"
      using "1.prems" by simp
    then show ?thesis
      using "1.prems" by (subst memcmp_fast_qwords.simps) simp
  next
    case True
    then have bound: "8 * i + 8 \<le> n"
      using "1.prems" by simp
    then have la: "load64 a i = Inr (le_word (take 8 (drop (8 * i) a)))"
      and lb: "load64 b i = Inr (le_word (take 8 (drop (8 * i) b)))"
      using "1.prems" by (simp_all add: load64_ok)
    let ?x = "le_word (take 8 (drop (8 * i) a)) :: u64"
    let ?y = "le_word (take 8 (drop (8 * i) b)) :: u64"
    have next_ok: "first_diff_from a b n 0 = first_diff_from a b n ((i + 1) * 8)"
      if "\<forall>m. i * 8 \<le> m \<and> m < (i + 1) * 8 \<and> m < n \<longrightarrow> a ! m = b ! m"
    proof -
      have "first_diff_from a b n (i * 8) = first_diff_from a b n ((i + 1) * 8)"
        using that bound by (intro first_diff_from_skip) simp_all
      then show ?thesis
        using "1.prems" by simp
    qed
    show ?thesis
    proof (cases "?x = ?y")
      case eq: True
      have "\<forall>m. i * 8 \<le> m \<and> m < (i + 1) * 8 \<and> m < n \<longrightarrow> a ! m = b ! m"
        using qword_bytes_eq [of i a b] eq bound "1.prems" by (simp add: mult.commute)
      then have "first_diff_from a b n 0 = first_diff_from a b n ((i + 1) * 8)"
        by (rule next_ok)
      then have "\<exists>res. memcmp_fast_qwords a b n qwords (i + 1) = Inr res \<and>
         (case res of
            Some r \<Rightarrow> first_diff_from a b n 0 = r
          | None \<Rightarrow> first_diff_from a b n 0 = first_diff_from a b n (qwords * 8))"
        using "1.IH"(2) [OF True la lb] eq True "1.prems" by simp
      then show ?thesis
        using True la lb eq by (subst memcmp_fast_qwords.simps) simp
    next
      case ne: False
      obtain res where res: "memcmp_fast_bytes a b i n (i * 8) = Inr res"
        "case res of
           Some r \<Rightarrow> first_diff_from a b n (i * 8) = r
         | None \<Rightarrow> (\<forall>m. i * 8 \<le> m \<and> m < (i + 1) * 8 \<and> m < n \<longrightarrow> a ! m = b ! m)"
        using memcmp_fast_bytes_correct [of n a b i "i * 8"] "1.prems" by auto
      show ?thesis
      proof (cases res)
        case (Some r)
        then show ?thesis
          using True la lb ne res "1.prems" by (subst memcmp_fast_qwords.simps) simp
      next
        case None
        then have "first_diff_from a b n 0 = first_diff_from a b n ((i + 1) * 8)"
          using res(2) by (intro next_ok) simp
        then have "\<exists>res. memcmp_fast_qwords a b n qwords (i + 1) = Inr res \<and>
           (case res of
              Some r \<Rightarrow> first_diff_from a b n 0 = r
            | None \<Rightarrow> first_diff_from a b n 0 = first_diff_from a b n (qwords * 8))"
          using "1.IH"(1) [OF True la lb ne res(1) None] True "1.prems" by simp
        then show ?thesis
          using True la lb ne res(1) None by (subst memcmp_fast_qwords.simps) simp
      qed
    qed
  qed
qed

lemma memcmp_fast_tail_correct:
  assumes "q + remainder \<le> length a" "q + remainder \<le> length b" "i \<le> remainder"
    and "first_diff_from a b (q + remainder) 0 = first_diff_from a b (q + remainder) (q + i)"
  shows "\<exists>res. memcmp_fast_tail (drop q a) (drop q b) remainder i = Inr res \<and>
     (case res of
        Some r \<Rightarrow> first_diff_from a b (q + remainder) 0 = r
      | None \<Rightarrow> first_diff_from a b (q + remainder) 0 = 0)"
  using assms(3,4)
proof (induction "remainder - i" arbitrary: i)
  case 0
  then have "i = remainder"
    by simp
  then show ?case
    using "0.prems" by (subst memcmp_fast_tail.simps) (simp add: first_diff_from_end)
next
  case (Suc d)
  then have lt: "i < remainder"
    by simp
  then have l: "load8 (drop q a) i = Inr (a ! (q + i))" "load8 (drop q b) i = Inr (b ! (q + i))"
    using assms(1,2) by (simp_all add: load8_def)
  show ?case
  proof (cases "a ! (q + i) = b ! (q + i)")
    case False
    then have "first_diff_from a b (q + remainder) (q + i) = byte_diff (a ! (q + i)) (b ! (q + i))"
      using lt by (intro first_diff_from_hit) simp_all
    then show ?thesis
      using lt l False Suc.prems by (subst memcmp_fast_tail.simps) simp
  next
    case True
    have "first_diff_from a b (q + remainder) (q + i) = first_diff_from a b (q + remainder) (q + (i + 1))"
      using lt True by (subst first_diff_from.simps) simp
    then have "\<exists>res. memcmp_fast_tail (drop q a) (drop q b) remainder (i + 1) = Inr res \<and>
       (case res of
          Some r \<Rightarrow> first_diff_from a b (q + remainder) 0 = r
        | None \<Rightarrow> first_diff_from a b (q + remainder) 0 = 0)"
      using Suc.hyps(2) lt Suc.prems by (intro Suc.hyps(1)) simp_all
    then show ?thesis
      using lt l True by (subst memcmp_fast_tail.simps) simp
  qed
qed

lemma riscv_memcmp_fast_eq:
  assumes "n \<le> length a" "n \<le> length b"
  shows "riscv_memcmp_fast a b n = Inr (first_diff_from a b n 0)"
proof -
  define q where "q = n div 8 * 8"
  define remainder where "remainder = n mod 8"
  have n: "n = q + remainder" "q \<le> n"
    by (simp_all add: q_def remainder_def)
  obtain res where res: "memcmp_fast_qwords a b n (n div 8) 0 = Inr res"
    "case res of
       Some r \<Rightarrow> first_diff_from a b n 0 = r
     | None \<Rightarrow> first_diff_from a b n 0 = first_diff_from a b n q"
    using memcmp_fast_qwords_correct [of n a b "n div 8" 0] assms n unfolding q_def by auto
  show ?thesis
  proof (cases res)
    case (Some r)
    then show ?thesis
      using res by (simp add: riscv_memcmp_fast_def)
  next
    case None
    show ?thesis
    proof (cases "remainder > 0")
      case False
      then have "q = n"
        using n by simp
      then show ?thesis
        using res None False by (simp add: riscv_memcmp_fast_def first_diff_from_end flip: remainder_def)
    next
      case True
      have "\<exists>res'. memcmp_fast_tail (drop q a) (drop q b) remainder 0 = Inr res' \<and>
         (case res' of
            Some r \<Rightarrow> first_diff_from a b (q + remainder) 0 = r
          | None \<Rightarrow> first_diff_from a b (q + remainder) 0 = 0)"
        using assms n res(2) None by (intro memcmp_fast_tail_correct) simp_all
      then obtain res' where res': "memcmp_fast_tail (drop q a) (drop q b) remainder 0 = Inr res'"
        "case res' of
           Some r \<Rightarrow> first_diff_from a b n 0 = r
         | None \<Rightarrow> first_diff_from a b n 0 = 0"
        using n by auto
      show ?thesis
        using res(1) None True res'
        by (cases res') (simp_all add: riscv_memcmp_fast_def flip: remainder_def q_def)
    qed
  qed
qed

lemma riscv_memcmp_fast_example:
  "riscv_memcmp_fast [1, 2, 3, 4, 5, 6, 7, 8, 9, 10, 11] [1, 2, 3, 4, 5, 6, 7, 8, 9, 12, 0] 11 =
     Inr (- 2)"
  by code_simp

subsection \<open>\<open>riscv_memcmp_rvv\<close> computes the reference scan\<close>

text \<open>
  A vector comparison that counts no differing element leaves all its words, and so all
  their bytes, equal.
\<close>

lemma vcpop_vmsne_zero:
  assumes "\<not> 0 < vcpop_m (vmsne_vv va vb)" "k < length va" "k < length vb"
  shows "va ! k = vb ! k"
proof -
  have "filter (\<lambda>b. b) (vmsne_vv va vb) = []"
    using assms(1) by (simp add: vcpop_m_def)
  then have "\<forall>x \<in> set (vmsne_vv va vb). \<not> x"
    by (simp add: filter_empty_conv)
  moreover have "vmsne_vv va vb ! k \<in> set (vmsne_vv va vb)"
    using assms(2,3) by (intro nth_mem) (simp add: vmsne_vv_def)
  ultimately have "\<not> vmsne_vv va vb ! k"
    by blast
  then show ?thesis
    using assms(2,3) by (simp add: vmsne_vv_def)
qed

lemma vle64_v_ok:
  "8 * (i + vl) \<le> length buf \<Longrightarrow>
   vle64_v buf i vl = Inr (map (\<lambda>k. le_word (take 8 (drop (8 * (i + k)) buf))) [0..<vl])"
  by (simp add: vle64_v_def)

lemma riscv_memcmp_rvv_loop_correct:
  assumes "vsetvl_conforms vsetvl" "n \<le> length a" "n \<le> length b" "cnt * 8 \<le> n"
  shows "i \<le> cnt \<Longrightarrow>
     \<exists>found. riscv_memcmp_rvv_loop vsetvl a b cnt i = Some (Inr found) \<and>
       (\<not> found \<longrightarrow> (\<forall>m. i * 8 \<le> m \<and> m < cnt * 8 \<longrightarrow> a ! m = b ! m))"
proof (induction "cnt - i" arbitrary: i rule: less_induct)
  case less
  show ?case
  proof (cases "i < cnt")
    case False
    then have "\<forall>m. i * 8 \<le> m \<and> m < cnt * 8 \<longrightarrow> a ! m = b ! m"
      using less.prems by (intro allI impI) linarith
    moreover have "riscv_memcmp_rvv_loop vsetvl a b cnt i = Some (Inr False)"
      using False by (subst riscv_memcmp_rvv_loop.simps) simp
    ultimately show ?thesis
      by blast
  next
    case True
    define vl where "vl = vsetvl (cnt - i)"
    have "0 < vsetvl (cnt - i) \<and> vsetvl (cnt - i) \<le> cnt - i"
      using True assms(1) by (simp add: vsetvl_conforms_def)
    then have vl: "0 < vl" "i + vl \<le> cnt"
      using True unfolding vl_def by linarith+
    then have bound: "8 * (i + vl) \<le> n"
      using assms(4) by simp
    define va where "va = map (\<lambda>k. le_word (take 8 (drop (8 * (i + k)) a)) :: u64) [0..<vl]"
    define vb where "vb = map (\<lambda>k. le_word (take 8 (drop (8 * (i + k)) b)) :: u64) [0..<vl]"
    have la: "vle64_v a i vl = Inr va" and lb: "vle64_v b i vl = Inr vb"
      using bound assms(2,3) by (simp_all add: vle64_v_ok va_def vb_def)
    show ?thesis
    proof (cases "0 < vcpop_m (vmsne_vv va vb)")
      case hit: True
      then have "riscv_memcmp_rvv_loop vsetvl a b cnt i = Some (Inr True)"
        using \<open>i < cnt\<close> la lb
        by (subst riscv_memcmp_rvv_loop.simps) (simp add: Let_def flip: vl_def)
      then show ?thesis
        by blast
    next
      case miss: False
      have here: "a ! m = b ! m" if "i * 8 \<le> m" "m < (i + vl) * 8" for m
      proof -
        define k where "k = m div 8 - i"
        have k: "k < vl" "8 * (i + k) \<le> m" "m < 8 * (i + k) + 8"
          using that by (simp_all add: k_def less_mult_imp_div_less)
        have "va ! k = vb ! k"
          using miss k(1) by (intro vcpop_vmsne_zero) (simp_all add: va_def vb_def)
        then have "(le_word (take 8 (drop (8 * (i + k)) a)) :: u64) =
                   le_word (take 8 (drop (8 * (i + k)) b))"
          using k(1) by (simp add: va_def vb_def)
        moreover have "8 * (i + k) + 8 \<le> length a" "8 * (i + k) + 8 \<le> length b"
          using k(1) bound assms(2,3) by simp_all
        ultimately show ?thesis
          using k(2,3) by (intro qword_bytes_eq [of "i + k" a b m]) simp_all
      qed
      have dec: "cnt - (i + vl) < cnt - i"
        using vl \<open>i < cnt\<close> by simp
      have "\<exists>found. riscv_memcmp_rvv_loop vsetvl a b cnt (i + vl) = Some (Inr found) \<and>
        (\<not> found \<longrightarrow> (\<forall>m. (i + vl) * 8 \<le> m \<and> m < cnt * 8 \<longrightarrow> a ! m = b ! m))"
        by (rule less.hyps [OF dec]) (rule vl(2))
      then obtain found where found:
        "riscv_memcmp_rvv_loop vsetvl a b cnt (i + vl) = Some (Inr found)"
        "\<not> found \<longrightarrow> (\<forall>m. (i + vl) * 8 \<le> m \<and> m < cnt * 8 \<longrightarrow> a ! m = b ! m)"
        by blast
      have "\<forall>m. i * 8 \<le> m \<and> m < cnt * 8 \<longrightarrow> a ! m = b ! m" if "\<not> found"
      proof (intro allI impI)
        fix m assume m: "i * 8 \<le> m \<and> m < cnt * 8"
        show "a ! m = b ! m"
        proof (cases "m < (i + vl) * 8")
          case True
          then show ?thesis
            using m here by simp
        next
          case False
          then show ?thesis
            using m found(2) that by simp
        qed
      qed
      moreover have "riscv_memcmp_rvv_loop vsetvl a b cnt i = Some (Inr found)"
        using \<open>i < cnt\<close> la lb miss found(1)
        by (subst riscv_memcmp_rvv_loop.simps) (simp add: Let_def flip: vl_def)
      ultimately show ?thesis
        by blast
    qed
  qed
qed

lemma memcmp_rvv_tail_correct:
  assumes "sz \<le> length a" "sz \<le> length b" "remainder \<le> sz" "j \<le> remainder"
    and "first_diff_from a b sz 0 = first_diff_from a b sz (sz - remainder + j)"
  shows "\<exists>res. memcmp_rvv_tail a b sz remainder j = Inr res \<and>
     (case res of
        Some r \<Rightarrow> first_diff_from a b sz 0 = r
      | None \<Rightarrow> first_diff_from a b sz 0 = 0)"
  using assms(4,5)
proof (induction "remainder - j" arbitrary: j)
  case 0
  then have "sz - remainder + j = sz"
    using assms(3) by simp
  then show ?case
    using "0.prems" "0.hyps" by (subst memcmp_rvv_tail.simps) (simp add: first_diff_from_end)
next
  case (Suc d)
  define m where "m = sz - remainder + j"
  have lt: "j < remainder" "m < sz"
    using Suc.hyps(2) assms(3) by (simp_all add: m_def)
  then have l: "load8 a m = Inr (a ! m)" "load8 b m = Inr (b ! m)"
    using assms(1,2) by (simp_all add: load8_def)
  show ?case
  proof (cases "a ! m = b ! m")
    case False
    then have "first_diff_from a b sz m = byte_diff (a ! m) (b ! m)"
      using lt by (intro first_diff_from_hit) simp_all
    then show ?thesis
      using lt l False Suc.prems
      by (subst memcmp_rvv_tail.simps) (simp flip: m_def)
  next
    case True
    have "first_diff_from a b sz m = first_diff_from a b sz (m + 1)"
      using lt True by (subst first_diff_from.simps) simp
    then have "first_diff_from a b sz 0 = first_diff_from a b sz (sz - remainder + (j + 1))"
      using Suc.prems by (simp add: m_def)
    then have "\<exists>res. memcmp_rvv_tail a b sz remainder (j + 1) = Inr res \<and>
       (case res of
          Some r \<Rightarrow> first_diff_from a b sz 0 = r
        | None \<Rightarrow> first_diff_from a b sz 0 = 0)"
      using Suc.hyps(2) lt by (intro Suc.hyps(1)) simp_all
    then show ?thesis
      using lt l True by (subst memcmp_rvv_tail.simps) (simp flip: m_def)
  qed
qed

lemma vsetvl_vlmax_conforms: "0 < vlmax \<Longrightarrow> vsetvl_conforms (vsetvl_vlmax vlmax)"
  by (simp add: vsetvl_conforms_def vsetvl_vlmax_def)

lemma memcmp_first_diff_conforms: "memcmp_conforms memcmp_first_diff"
  by (simp add: memcmp_conforms_def memcmp_first_diff_def)

lemma memcmp_conformsD:
  assumes "memcmp_conforms memcmp" "n \<le> length a" "n \<le> length b"
  shows "\<exists>r. memcmp a b n = Inr r \<and> sgn r = sgn (first_diff_from a b n 0)"
  using assms unfolding memcmp_conforms_def by blast

lemma riscv_memcmp_rvv_sgn:
  assumes "vsetvl_conforms vsetvl" "memcmp_conforms memcmp" "n \<le> length a" "n \<le> length b"
  shows "\<exists>r. riscv_memcmp_rvv vsetvl memcmp a b n = Some (Inr r) \<and>
     sgn r = sgn (first_diff_from a b n 0)"
proof -
  define cnt where "cnt = n div 8"
  define remainder where "remainder = n mod 8"
  have n: "cnt * 8 \<le> n" "n - remainder = cnt * 8" "remainder \<le> n"
    by (simp_all add: cnt_def remainder_def minus_mod_eq_div_mult)
  obtain found where found:
    "riscv_memcmp_rvv_loop vsetvl a b cnt 0 = Some (Inr found)"
    "\<not> found \<longrightarrow> (\<forall>m. m < cnt * 8 \<longrightarrow> a ! m = b ! m)"
    using riscv_memcmp_rvv_loop_correct [OF assms(1,3,4) n(1), of 0] by auto
  show ?thesis
  proof (cases found)
    case True
    obtain r where "memcmp a b n = Inr r" "sgn r = sgn (first_diff_from a b n 0)"
      using memcmp_conformsD [OF assms(2,3,4)] by blast
    then show ?thesis
      using found(1) True by (simp add: riscv_memcmp_rvv_def flip: cnt_def)
  next
    case False
    then have skip: "first_diff_from a b n 0 = first_diff_from a b n (cnt * 8)"
      using found(2) n(1) by (intro first_diff_from_skip) simp_all
    show ?thesis
    proof (cases "remainder = 0")
      case True
      then have "cnt * 8 = n"
        using n(2) by simp
      then show ?thesis
        using found(1) False True skip
        by (simp add: riscv_memcmp_rvv_def first_diff_from_end flip: cnt_def remainder_def)
    next
      case nz: False
      obtain res where res: "memcmp_rvv_tail a b n remainder 0 = Inr res"
        "case res of
           Some r \<Rightarrow> first_diff_from a b n 0 = r
         | None \<Rightarrow> first_diff_from a b n 0 = 0"
        using memcmp_rvv_tail_correct [of n a b remainder 0] assms(3,4) n skip by auto
      show ?thesis
        using found(1) False nz res
        by (cases res) (simp_all add: riscv_memcmp_rvv_def flip: cnt_def remainder_def)
    qed
  qed
qed

text \<open>The builds that call \<open>memcmp\<close> directly return a value of the same sign.\<close>

lemma memcmp_builds_sgn:
  assumes "memcmp_conforms memcmp" "n \<le> length a" "n \<le> length b"
  shows "\<exists>r. riscv_memcmp_fast_fallback memcmp a b n = Inr r \<and>
           sgn r = sgn (first_diff_from a b n 0)"
    and "\<exists>r. riscv_memcmp_rvv_scalar memcmp a b n = Inr r \<and>
           sgn r = sgn (first_diff_from a b n 0)"
  using memcmp_conformsD [OF assms]
  by (simp_all add: riscv_memcmp_fast_fallback_def riscv_memcmp_rvv_scalar_def)

subsection \<open>Reflexivity and the sign of the result\<close>

text \<open>
  C4. For buffers of at least \<open>n\<close> bytes, on every conforming processor and C library:
  comparing a buffer with itself returns exactly 0, with \<open>riscv_memcmp_fast\<close> and with
  \<open>riscv_memcmp_rvv\<close>; and when the first differing byte of \<open>a\<close> and \<open>b\<close> is at index
  \<open>i < n\<close>, both functions return a value whose sign is the sign of \<open>a[i] - b[i]\<close>, the
  bytes read as unsigned.
\<close>

theorem bulk_compare_reflexive_and_sign:
  assumes "vsetvl_conforms vsetvl" "memcmp_conforms memcmp" "n \<le> length a" "n \<le> length b"
  shows "riscv_memcmp_fast a a n = Inr 0 \<and>
     riscv_memcmp_rvv vsetvl memcmp a a n = Some (Inr 0) \<and>
     (i < n \<and> a ! i \<noteq> b ! i \<and> (\<forall>j<i. a ! j = b ! j) \<longrightarrow>
        (\<exists>r. riscv_memcmp_fast a b n = Inr r \<and>
             sgn r = sgn (int (unat (a ! i)) - int (unat (b ! i)))) \<and>
        (\<exists>r. riscv_memcmp_rvv vsetvl memcmp a b n = Some (Inr r) \<and>
             sgn r = sgn (int (unat (a ! i)) - int (unat (b ! i)))))"
proof -
  have first: "first_diff_from a b n 0 = int (unat (a ! i)) - int (unat (b ! i))"
    if "i < n" "a ! i \<noteq> b ! i" "\<forall>j<i. a ! j = b ! j"
    using first_diff_from_first [OF that] by (simp only: byte_diff_def)
  obtain r0 where r0: "riscv_memcmp_rvv vsetvl memcmp a a n = Some (Inr r0)"
    "sgn r0 = sgn (first_diff_from a a n 0)"
    using riscv_memcmp_rvv_sgn [OF assms(1,2,3,3)] by blast
  then have "r0 = 0"
    by (simp add: first_diff_from_refl sgn_eq_0_iff)
  then have refl: "riscv_memcmp_rvv vsetvl memcmp a a n = Some (Inr 0)"
    using r0(1) by simp
  have zero: "riscv_memcmp_fast a a n = Inr 0"
    using assms(3) by (simp add: riscv_memcmp_fast_eq first_diff_from_refl)
  have sign:
    "(\<exists>r. riscv_memcmp_fast a b n = Inr r \<and>
          sgn r = sgn (int (unat (a ! i)) - int (unat (b ! i)))) \<and>
     (\<exists>r. riscv_memcmp_rvv vsetvl memcmp a b n = Some (Inr r) \<and>
          sgn r = sgn (int (unat (a ! i)) - int (unat (b ! i))))"
    if h: "i < n \<and> a ! i \<noteq> b ! i \<and> (\<forall>j<i. a ! j = b ! j)"
  proof -
    have f: "first_diff_from a b n 0 = int (unat (a ! i)) - int (unat (b ! i))"
      using first h by blast
    have "\<exists>r. riscv_memcmp_fast a b n = Inr r \<and> sgn r = sgn (first_diff_from a b n 0)"
      using assms(3,4) by (simp add: riscv_memcmp_fast_eq)
    then show ?thesis
      using riscv_memcmp_rvv_sgn [OF assms] unfolding f by blast
  qed
  show ?thesis
    using zero refl sign by blast
qed

theorem bulk_compare_reflexive_and_sign_witness:
  "riscv_memcmp_fast [1, 2, 3, 4, 5, 6, 7, 8, 9, 10, 11, 12, 13, 14, 15, 16, 17, 18, 19]
     [1, 2, 3, 4, 5, 6, 7, 8, 9, 10, 11, 12, 13, 14, 15, 16, 17, 18, 19] 19 = Inr 0 \<and>
   riscv_memcmp_rvv (vsetvl_vlmax 2) memcmp_first_diff
     [1, 2, 3, 4, 5, 6, 7, 8, 9, 10, 11, 12, 13, 14, 15, 16, 17, 18, 19]
     [1, 2, 3, 4, 5, 6, 7, 8, 9, 10, 11, 12, 13, 14, 15, 16, 17, 18, 19] 19 = Some (Inr 0) \<and>
   (\<exists>r. riscv_memcmp_fast [1, 2, 3, 4, 5, 6, 7, 8, 9, 10, 11, 12, 13, 14, 15, 16, 17, 18, 19]
     [1, 2, 3, 4, 5, 6, 7, 8, 9, 10, 200, 12, 13, 14, 15, 16, 17, 0, 19] 19 = Inr r \<and> sgn r = - 1) \<and>
   (\<exists>r. riscv_memcmp_rvv (vsetvl_vlmax 2) memcmp_first_diff
     [1, 2, 3, 4, 5, 6, 7, 8, 9, 10, 11, 12, 13, 14, 15, 16, 17, 18, 19]
     [1, 2, 3, 4, 5, 6, 7, 8, 9, 10, 200, 12, 13, 14, 15, 16, 17, 0, 19] 19 = Some (Inr r) \<and>
     sgn r = - 1)"
proof -
  let ?a = "[1, 2, 3, 4, 5, 6, 7, 8, 9, 10, 11, 12, 13, 14, 15, 16, 17, 18, 19] :: buffer"
  let ?b = "[1, 2, 3, 4, 5, 6, 7, 8, 9, 10, 200, 12, 13, 14, 15, 16, 17, 0, 19] :: buffer"
  have v: "vsetvl_conforms (vsetvl_vlmax 2)"
    by (simp add: vsetvl_conforms_def vsetvl_vlmax_def)
  have m: "memcmp_conforms memcmp_first_diff"
    by (simp add: memcmp_conforms_def memcmp_first_diff_def)
  have h: "19 \<le> length ?a" "19 \<le> length ?b"
    by simp_all
  have "\<forall>j<10. ?a ! j = ?b ! j"
    by (simp add: numeral_eq_Suc All_less_Suc)
  moreover have "?a ! 10 \<noteq> ?b ! 10"
    by simp
  ultimately have first: "(10::nat) < 19 \<and> ?a ! 10 \<noteq> ?b ! 10 \<and> (\<forall>j<10. ?a ! j = ?b ! j)"
    by simp
  have s: "sgn (int (unat (?a ! 10)) - int (unat (?b ! 10))) = - 1"
    by simp
  show ?thesis
    using bulk_compare_reflexive_and_sign [OF v m h, of 10] first unfolding s
    by blast
qed

end
